theory Spec2Isabelle
  imports Main "HOL-Library.Char_ord" "HOL-Library.List_Lexorder"
begin

section \<open>The calendar of the JavaScript \<open>Date\<close> object\<close>

text \<open>
  \<^verbatim>\<open>StreakGrid.tsx\<close> does its date arithmetic with the built-in \<open>Date\<close>: it reads
  the local fields (\<open>getFullYear\<close>, \<open>getMonth\<close>, \<open>getDate\<close>, \<open>getDay\<close>), builds dates from
  fields (\<open>new Date(y, m, d)\<close>), moves them with \<open>setDate\<close> and compares them. The
  language standard defines all of these through the day number of a date (days since
  1970-01-01) and the function \<open>MakeDay\<close>. The definitions below follow the standard;
  months are 0-based as in JavaScript, \<open>div\<close> and \<open>mod\<close> on \<open>int\<close> are the standard's
  \<open>floor\<close> and \<open>modulo\<close>.

  A \<open>Date\<close> is modelled by its local calendar fields. The time of day is left out: every
  date the component builds is read back only through its calendar fields, and daylight
  saving shifts are not modelled.
\<close>

definition DaysInYear :: "int \<Rightarrow> int" where
  "DaysInYear y =
     (if y mod 4 \<noteq> 0 then 365
      else if y mod 100 \<noteq> 0 then 366
      else if y mod 400 \<noteq> 0 then 365
      else 366)"

definition DayFromYear :: "int \<Rightarrow> int" where
  "DayFromYear y =
     365 * (y - 1970) + (y - 1969) div 4 - (y - 1901) div 100 + (y - 1601) div 400"

definition daysInMonth :: "int \<Rightarrow> int \<Rightarrow> int" where
  "daysInMonth y m =
     (if m = 1 then DaysInYear y - 337
      else if m = 3 \<or> m = 5 \<or> m = 8 \<or> m = 10 then 30
      else 31)"

definition daysBeforeMonth :: "int \<Rightarrow> int \<Rightarrow> int" where
  "daysBeforeMonth y m =
     [0, 31, 59, 90, 120, 151, 181, 212, 243, 273, 304, 334] ! nat m
       + (if 2 \<le> m then DaysInYear y - 365 else 0)"

definition MakeDay :: "int \<Rightarrow> int \<Rightarrow> int \<Rightarrow> int" where
  "MakeDay y m d =
     (let ym = y + m div 12; mn = m mod 12
      in DayFromYear ym + daysBeforeMonth ym mn + d - 1)"

definition WeekDay :: "int \<Rightarrow> int" where
  "WeekDay dayNumber = (dayNumber + 4) mod 7"

record jsdate =
  getFullYear :: int
  getMonth :: int
  getDate :: int

definition validDate :: "jsdate \<Rightarrow> bool" where
  "validDate D \<longleftrightarrow>
     0 \<le> getMonth D \<and> getMonth D \<le> 11 \<and>
     1 \<le> getDate D \<and> getDate D \<le> daysInMonth (getFullYear D) (getMonth D)"

lemma daysInMonth_bounds: "28 \<le> daysInMonth y m \<and> daysInMonth y m \<le> 31"
  by (simp add: daysInMonth_def DaysInYear_def)

text \<open>
  \<open>normalize y m d\<close> is the date whose day number is \<open>MakeDay y m d\<close>: a month outside
  0..11 carries into the year, a day below 1 or beyond the month's length carries into
  the neighbouring month.
\<close>

function normalize :: "int \<Rightarrow> int \<Rightarrow> int \<Rightarrow> jsdate" where
  "normalize y m d =
     (if m < 0 \<or> 11 < m then normalize (y + m div 12) (m mod 12) d
      else if d < 1 then
        (if m = 0 then normalize (y - 1) 11 (d + 31)
         else normalize y (m - 1) (d + daysInMonth y (m - 1)))
      else if daysInMonth y m < d then
        (if m = 11 then normalize (y + 1) 0 (d - 31)
         else normalize y (m + 1) (d - daysInMonth y m))
      else \<lparr>getFullYear = y, getMonth = m, getDate = d\<rparr>)"
  by pat_completeness auto
termination
proof (relation "measure (\<lambda>(y, m, d).
        (if m < 0 \<or> 11 < m then 1 else 0)
        + 2 * (if d < 1 then 32 + nat (1 - d) else nat d))", goal_cases)
  case 1
  show ?case by simp
next
  case (2 y m d)
  then show ?case by auto
next
  case (3 y m d)
  then show ?case by auto
next
  case (4 y m d)
  then show ?case using daysInMonth_bounds [of y "m - 1"] by auto
next
  case (5 y m d)
  then show ?case by (auto simp: daysInMonth_def)
next
  case (6 y m d)
  then show ?case using daysInMonth_bounds [of y m] by auto
qed

declare normalize.simps [simp del]

definition dayNumber :: "jsdate \<Rightarrow> int" where
  "dayNumber D = MakeDay (getFullYear D) (getMonth D) (getDate D)"

definition getDay :: "jsdate \<Rightarrow> int" where
  "getDay D = WeekDay (dayNumber D)"

text \<open>
  \<open>new Date(year, month, day)\<close>. The constructor reads a year from 0 to 99 as 1900 + year.
\<close>

definition newDate :: "int \<Rightarrow> int \<Rightarrow> int \<Rightarrow> jsdate" where
  "newDate y m d = normalize (if 0 \<le> y \<and> y \<le> 99 then 1900 + y else y) m d"

definition setDate :: "jsdate \<Rightarrow> int \<Rightarrow> jsdate" where
  "setDate D n = normalize (getFullYear D) (getMonth D) n"

text \<open>\<open>a <= b\<close> on two dates compares their time values.\<close>

definition dateLe :: "jsdate \<Rightarrow> jsdate \<Rightarrow> bool" where
  "dateLe a b \<longleftrightarrow> dayNumber a \<le> dayNumber b"

subsection \<open>Day numbers of normalized dates\<close>

lemma MakeDay_shift: "MakeDay y m (d + k) = MakeDay y m d + k"
  by (simp add: MakeDay_def Let_def)

lemma div_succ:
  fixes x n :: int
  assumes "0 < n"
  shows "(x + 1) div n = (if (x + 1) mod n = 0 then x div n + 1 else x div n)"
proof (cases "(x + 1) mod n = 0")
  case True
  have "x + 1 = n * ((x + 1) div n) + (x + 1) mod n" by simp
  with True have "x = n * ((x + 1) div n - 1) + (n - 1)" by (simp add: algebra_simps)
  then have "x div n = (x + 1) div n - 1"
    using assms int_div_pos_eq [of x n "(x + 1) div n - 1" "n - 1"] by simp
  with True show ?thesis by simp
next
  case False
  define r where "r = (x + 1) mod n"
  have r: "0 \<le> r" "r < n" using assms by (simp_all add: r_def)
  with False have r1: "1 \<le> r" by (simp add: r_def)
  have "x + 1 = n * ((x + 1) div n) + r" by (simp add: r_def)
  then have "x = n * ((x + 1) div n) + (r - 1)" by simp
  then have "x div n = (x + 1) div n"
    using r r1 int_div_pos_eq [of x n "(x + 1) div n" "r - 1"] by simp
  with False show ?thesis by simp
qed

lemma leap_mods:
  fixes y :: int
  shows "(y - 1968) mod 4 = y mod 4" "(y - 1900) mod 100 = y mod 100" "(y - 1600) mod 400 = y mod 400"
proof -
  have "y - 1968 = y + (- 492) * 4" "y - 1900 = y + (- 19) * 100" "y - 1600 = y + (- 4) * 400"
    by simp_all
  then show "(y - 1968) mod 4 = y mod 4" "(y - 1900) mod 100 = y mod 100" "(y - 1600) mod 400 = y mod 400"
    by (simp_all only: mod_mult_self1)
qed

lemma mod_chain:
  fixes y :: int
  shows "y mod 400 = 0 \<Longrightarrow> y mod 100 = 0" and "y mod 100 = 0 \<Longrightarrow> y mod 4 = 0"
proof -
  have a: "(100::int) dvd 400" and b: "(4::int) dvd 100" by simp_all
  show "y mod 400 = 0 \<Longrightarrow> y mod 100 = 0"
    using dvd_trans [OF a, of y] by (simp add: mod_eq_0_iff_dvd)
  show "y mod 100 = 0 \<Longrightarrow> y mod 4 = 0"
    using dvd_trans [OF b, of y] by (simp add: mod_eq_0_iff_dvd)
qed

lemma DayFromYear_Suc: "DayFromYear (y + 1) = DayFromYear y + DaysInYear y"
proof -
  have a: "(y - 1968) div 4 = (if y mod 4 = 0 then (y - 1969) div 4 + 1 else (y - 1969) div 4)"
    using div_succ [of 4 "y - 1969"] by (simp add: leap_mods)
  have b: "(y - 1900) div 100 = (if y mod 100 = 0 then (y - 1901) div 100 + 1 else (y - 1901) div 100)"
    using div_succ [of 100 "y - 1901"] by (simp add: leap_mods)
  have c: "(y - 1600) div 400 = (if y mod 400 = 0 then (y - 1601) div 400 + 1 else (y - 1601) div 400)"
    using div_succ [of 400 "y - 1601"] by (simp add: leap_mods)
  have "DayFromYear (y + 1) =
        365 * (y - 1969) + (y - 1968) div 4 - (y - 1900) div 100 + (y - 1600) div 400"
    by (simp add: DayFromYear_def)
  also have "\<dots> = DayFromYear y + DaysInYear y"
    unfolding a b c DayFromYear_def DaysInYear_def using mod_chain [of y] by auto
  finally show ?thesis .
qed

lemma daysBeforeMonth_Suc:
  assumes "0 \<le> m" "m \<le> 10"
  shows "daysBeforeMonth y (m + 1) = daysBeforeMonth y m + daysInMonth y m"
proof -
  from assms have "m = 0 \<or> m = 1 \<or> m = 2 \<or> m = 3 \<or> m = 4 \<or> m = 5 \<or> m = 6 \<or> m = 7
      \<or> m = 8 \<or> m = 9 \<or> m = 10"
    by arith
  then show ?thesis
    by (elim disjE) (simp_all add: daysBeforeMonth_def daysInMonth_def)
qed

lemma daysBeforeMonth_Dec: "daysBeforeMonth y 11 + 31 = DaysInYear y"
  by (simp add: daysBeforeMonth_def)

lemma daysBeforeMonth_Jan: "daysBeforeMonth y 0 = 0"
  by (simp add: daysBeforeMonth_def)

lemma MakeDay_in_range:
  "0 \<le> m \<Longrightarrow> m \<le> 11 \<Longrightarrow> MakeDay y m d = DayFromYear y + daysBeforeMonth y m + d - 1"
  by (simp add: MakeDay_def)

lemma MakeDay_month_norm: "MakeDay (y + m div 12) (m mod 12) d = MakeDay y m d"
  by (simp add: MakeDay_def)

lemma MakeDay_prev_month:
  assumes "1 \<le> m" "m \<le> 11"
  shows "MakeDay y (m - 1) (d + daysInMonth y (m - 1)) = MakeDay y m d"
  using assms daysBeforeMonth_Suc [of "m - 1" y] by (simp add: MakeDay_in_range)

lemma MakeDay_prev_year: "MakeDay (y - 1) 11 (d + 31) = MakeDay y 0 d"
  using DayFromYear_Suc [of "y - 1"] daysBeforeMonth_Dec [of "y - 1"]
  by (simp add: MakeDay_in_range daysBeforeMonth_Jan)

lemma MakeDay_normalize:
  "MakeDay (getFullYear (normalize y m d)) (getMonth (normalize y m d)) (getDate (normalize y m d))
     = MakeDay y m d"
proof (induction y m d rule: normalize.induct)
  case (1 y m d)
  show ?case
  proof (cases "m < 0 \<or> 11 < m")
    case True
    then show ?thesis
      using "1.IH"(1) by (subst (1 2 3) normalize.simps) (simp add: MakeDay_month_norm)
  next
    case range: False
    show ?thesis
    proof (cases "d < 1")
      case low: True
      show ?thesis
      proof (cases "m = 0")
        case True
        then show ?thesis
          using range low "1.IH"(2) by (subst (1 2 3) normalize.simps) (simp add: MakeDay_prev_year)
      next
        case False
        then show ?thesis
          using range low "1.IH"(3) MakeDay_prev_month [of m y d]
          by (subst (1 2 3) normalize.simps) simp
      qed
    next
      case notlow: False
      show ?thesis
      proof (cases "daysInMonth y m < d")
        case high: True
        show ?thesis
        proof (cases "m = 11")
          case True
          then show ?thesis
            using range notlow high "1.IH"(4) MakeDay_prev_year [of "y + 1" "d - 31"]
            by (subst (1 2 3) normalize.simps) simp
        next
          case False
          then show ?thesis
            using range notlow high "1.IH"(5) MakeDay_prev_month [of "m + 1" y "d - daysInMonth y m"]
            by (subst (1 2 3) normalize.simps) simp
        qed
      next
        case False
        then show ?thesis
          using range notlow by (subst (1 2 3) normalize.simps) simp
      qed
    qed
  qed
qed

lemma dayNumber_normalize: "dayNumber (normalize y m d) = MakeDay y m d"
  by (simp add: dayNumber_def MakeDay_normalize)

lemma validDate_normalize: "validDate (normalize y m d)"
proof (induction y m d rule: normalize.induct)
  case (1 y m d)
  show ?case
    using 1 by (subst normalize.simps) (auto simp: validDate_def)
qed

lemma normalize_valid:
  "0 \<le> m \<Longrightarrow> m \<le> 11 \<Longrightarrow> 1 \<le> d \<Longrightarrow> d \<le> daysInMonth y m
   \<Longrightarrow> normalize y m d = \<lparr>getFullYear = y, getMonth = m, getDate = d\<rparr>"
  by (subst normalize.simps) simp

lemma dayNumber_setDate: "dayNumber (setDate D n) = dayNumber D + (n - getDate D)"
proof -
  have "dayNumber (setDate D n) = MakeDay (getFullYear D) (getMonth D) n"
    by (simp add: setDate_def dayNumber_normalize)
  also have "\<dots> = dayNumber D + (n - getDate D)"
    using MakeDay_shift [of "getFullYear D" "getMonth D" "getDate D" "n - getDate D"]
    by (simp add: dayNumber_def)
  finally show ?thesis .
qed

section \<open>Date strings\<close>

text \<open>
  The helpers \<open>formatDate\<close>, \<open>getDayOfWeek\<close>, \<open>getMonthName\<close> and \<open>hasVisit\<close> are imported
  from \<^verbatim>\<open>../lib/streakCalculations\<close>, which is not among the sources. They are modelled
  from the specification.
\<close>

definition digitChar :: "nat \<Rightarrow> char" where
  "digitChar n = char_of (48 + n mod 10)"

definition pad2 :: "nat \<Rightarrow> string" where
  "pad2 n = [digitChar (n div 10), digitChar n]"

definition pad4 :: "nat \<Rightarrow> string" where
  "pad4 n = [digitChar (n div 1000), digitChar (n div 100), digitChar (n div 10), digitChar n]"

text \<open>
  Modelled from the spec: \<open>formatDate\<close> of \<^verbatim>\<open>lib/streakCalculations\<close> is missing. The
  spec gives a date as a zero-padded \<open>YYYY-MM-DD\<close> string of the local calendar date;
  the month is printed 1-based. Years outside 0..9999 do not fit the format.
\<close>

definition formatDate :: "jsdate \<Rightarrow> string" where
  "formatDate D =
     pad4 (nat (getFullYear D)) @ ''-'' @ pad2 (nat (getMonth D + 1)) @ ''-''
       @ pad2 (nat (getDate D))"

definition fourDigitYear :: "jsdate \<Rightarrow> bool" where
  "fourDigitYear D \<longleftrightarrow> 0 \<le> getFullYear D \<and> getFullYear D \<le> 9999"

definition digitVal :: "char \<Rightarrow> nat option" where
  "digitVal c =
     (let n = (of_char c :: nat) in if 48 \<le> n \<and> n \<le> 57 then Some (n - 48) else None)"

definition number :: "char list \<Rightarrow> nat option" where
  "number cs =
     foldl (\<lambda>acc c. case (acc, digitVal c) of
                       (Some n, Some k) \<Rightarrow> Some (10 * n + k)
                     | _ \<Rightarrow> None)
       (Some 0) cs"

text \<open>
  The date-only form \<open>YYYY-MM-DD\<close> that \<open>Date\<close> parses. \<open>None\<close> is the Invalid Date: the
  string does not have this shape or names no calendar day. The specification leaves
  what the helpers do with such a string open, and so does the model.
\<close>

definition parseISODate :: "string \<Rightarrow> jsdate option" where
  "parseISODate s =
     (if length s = 10 \<and> s ! 4 = CHR ''-'' \<and> s ! 7 = CHR ''-'' then
        (case (number (take 4 s), number (take 2 (drop 5 s)), number (drop 8 s)) of
           (Some y, Some m, Some d) \<Rightarrow>
             (let D = \<lparr>getFullYear = int y, getMonth = int m - 1, getDate = int d\<rparr>
              in if validDate D then Some D else None)
         | _ \<Rightarrow> None)
      else None)"

text \<open>
  \<open>new Date(s)\<close> for a date string \<open>s\<close>. JavaScript reads a date-only string as midnight
  UTC, and the getters then report the local date of that instant: the same calendar
  day in a zone at or east of UTC, the day before in a zone west of UTC. \<open>utcOffset\<close> is
  the local zone's offset from UTC in minutes, positive to the east.
\<close>

definition newDateOfString :: "int \<Rightarrow> string \<Rightarrow> jsdate option" where
  "newDateOfString utcOffset s =
     (case parseISODate s of
        None \<Rightarrow> None
      | Some D \<Rightarrow> Some (if utcOffset < 0 then setDate D (getDate D - 1) else D))"

text \<open>
  Modelled from the spec: \<open>getDayOfWeek\<close> of \<^verbatim>\<open>lib/streakCalculations\<close> is missing. The
  spec: the day of the week of a date in 0..6, Monday = 0 to Sunday = 6, a Monday-based
  remap of the Sunday-based weekday index. \<open>None\<close> for a string that is no date.
\<close>

definition getDayOfWeek :: "string \<Rightarrow> nat option" where
  "getDayOfWeek dateStr =
     (case parseISODate dateStr of
        None \<Rightarrow> None
      | Some D \<Rightarrow> Some (if getDay D = 0 then 6 else nat (getDay D - 1)))"

text \<open>
  Modelled from the spec: \<open>hasVisit\<close> of \<^verbatim>\<open>lib/streakCalculations\<close> is missing. The
  spec: a date string identifies a day, and a day is visited when the visit collection
  holds its string.
\<close>

definition hasVisit :: "string list \<Rightarrow> string \<Rightarrow> bool" where
  "hasVisit visits dateStr \<longleftrightarrow> dateStr \<in> set visits"

definition FULL_MONTH_NAMES :: "string list" where
  "FULL_MONTH_NAMES =
     [''January'', ''February'', ''March'', ''April'', ''May'', ''June'', ''July'',
      ''August'', ''September'', ''October'', ''November'', ''December'']"

text \<open>
  Modelled from the spec: \<open>getMonthName\<close> of \<^verbatim>\<open>lib/streakCalculations\<close> is missing. The
  spec: the full month name for a \<open>YYYY-MM\<close> key. For a key whose month is not 01..12
  the model gives the empty string.
\<close>

definition getMonthName :: "string \<Rightarrow> string" where
  "getMonthName monthKey =
     (case number (drop 5 monthKey) of
        Some m \<Rightarrow> if 1 \<le> m \<and> m \<le> 12 then FULL_MONTH_NAMES ! (m - 1) else ''''
      | None \<Rightarrow> '''')"

section \<open>The week grid\<close>

type_synonym week = "string option list"

definition emptyWeek :: week where
  "emptyWeek = replicate 7 None"

text \<open>
  \<open>getFullWeekDays\<close>, lines 83 to 100. The loop \<open>for (let i = 0; i < 7; i++)\<close> is the map
  over \<open>[0..<7]\<close>. The result is \<open>None\<close> when \<open>days[0]\<close> is no date string (an Invalid Date).
\<close>

definition getFullWeekDays :: "int \<Rightarrow> string list \<Rightarrow> week option" where
  "getFullWeekDays utcOffset days =
     (if length days = 0 then Some (replicate 7 None)
      else
        (case newDateOfString utcOffset (days ! 0) of
           None \<Rightarrow> None
         | Some firstDay \<Rightarrow>
             (let dayOfWeek = getDay firstDay;
                  mondayOffset = (if dayOfWeek = 0 then - 6 else 1 - dayOfWeek);
                  monday = setDate firstDay (getDate firstDay + mondayOffset)
              in Some (map (\<lambda>i. Some (formatDate (setDate monday (getDate monday + int i))))
                         [0..<7]))))"

section \<open>Cells and the wall clock\<close>

text \<open>
  \<open>new Date()\<close> reads the wall clock. The component reads it again at every use, so a
  render sees a sequence of readings: \<open>clock k\<close> is the local date that the \<open>k\<close>-th
  evaluation of \<open>new Date()\<close> within one render returns. The functions that render cells
  take the number of readings made so far and return it updated.
\<close>

type_synonym clock = "nat \<Rightarrow> jsdate"

text \<open>\<open>isFutureDate\<close>, lines 21 to 24; \<open>now\<close> is what its \<open>new Date()\<close> returns.\<close>

definition isFutureDate :: "jsdate \<Rightarrow> string \<Rightarrow> bool" where
  "isFutureDate now dateStr = (let today = formatDate now in dateStr > today)"

text \<open>The props of \<open>DayCell\<close> (lines 47 to 57), and the class it picks (lines 69 to 73).\<close>

record cell =
  cellDate :: string
  isVisited :: bool
  isFuture :: bool

datatype cellStyle = FutureStyle | VisitedStyle | UnvisitedStyle

definition styleOf :: "cell \<Rightarrow> cellStyle" where
  "styleOf c =
     (if isFuture c then FutureStyle
      else if isVisited c then VisitedStyle
      else UnvisitedStyle)"

text \<open>
  One slot of a grid: \<open>day ? <DayCell .../> : <div/>\<close>. The test is JavaScript
  truthiness, so the empty string counts as no day, like \<open>null\<close>.
\<close>

definition renderCell :: "clock \<Rightarrow> string list \<Rightarrow> string option \<Rightarrow> nat \<Rightarrow> cell option \<times> nat" where
  "renderCell clk visits day n =
     (case day of
        None \<Rightarrow> (None, n)
      | Some s \<Rightarrow>
          if s = [] then (None, n)
          else (Some \<lparr>cellDate = s, isVisited = hasVisit visits s,
                        isFuture = isFutureDate (clk n) s\<rparr>, Suc n))"

fun renderCells :: "clock \<Rightarrow> string list \<Rightarrow> string option list \<Rightarrow> nat \<Rightarrow> cell option list \<times> nat" where
  "renderCells clk visits [] n = ([], n)"
| "renderCells clk visits (day # rest) n =
     (let (c, n1) = renderCell clk visits day n;
          (cs, n2) = renderCells clk visits rest n1
      in (c # cs, n2))"

fun renderLines :: "clock \<Rightarrow> string list \<Rightarrow> string option list list \<Rightarrow> nat \<Rightarrow> cell option list list \<times> nat" where
  "renderLines clk visits [] n = ([], n)"
| "renderLines clk visits (line # rest) n =
     (let (cs, n1) = renderCells clk visits line n;
          (css, n2) = renderLines clk visits rest n1
      in (cs # css, n2))"

text \<open>\<open>WeekGrid\<close>, lines 105 to 153: the row of cells it renders.\<close>

definition WeekGrid :: "int \<Rightarrow> clock \<Rightarrow> string list \<Rightarrow> string list \<Rightarrow> cell option list option" where
  "WeekGrid utcOffset clk visits days =
     (case getFullWeekDays utcOffset days of
        None \<Rightarrow> None
      | Some fullWeekDays \<Rightarrow> Some (fst (renderCells clk visits fullWeekDays 0)))"

section \<open>The month grid\<close>

text \<open>\<open>getFullMonthDays\<close>, lines 158 to 172; \<open>now\<close> is what its \<open>new Date()\<close> returns.\<close>

definition getFullMonthDays :: "jsdate \<Rightarrow> string list" where
  "getFullMonthDays now =
     (let year = getFullYear now;
          month = getMonth now;
          lastDay = getDate (newDate year (month + 1) 0)
      in map (\<lambda>day. formatDate (newDate year month day)) [1..lastDay])"

text \<open>
  The grouping loop, written twice in the source with the same text: lines 187 to 204
  in \<open>MonthGrid\<close> and lines 285 to 307 in \<open>YearGrid\<close>. \<open>groupWeeks\<close> is the \<open>for\<close> loop with
  its two variables, \<open>buildWeeks\<close> adds the push of the last partial week. A day whose
  day of the week is \<open>None\<close> is written to no slot. \<open>getDayOfWeek\<close> stays below 7, so the
  array write never extends the array.
\<close>

fun groupWeeks :: "week list \<Rightarrow> week \<Rightarrow> string list \<Rightarrow> week list \<times> week" where
  "groupWeeks weeks currentWeek [] = (weeks, currentWeek)"
| "groupWeeks weeks currentWeek (day # rest) =
     (case getDayOfWeek day of
        None \<Rightarrow> groupWeeks weeks currentWeek rest
      | Some dayOfWeek \<Rightarrow>
          (let filled = currentWeek[dayOfWeek := Some day]
           in if dayOfWeek = 6 then groupWeeks (weeks @ [filled]) emptyWeek rest
              else groupWeeks weeks filled rest))"

definition buildWeeks :: "string list \<Rightarrow> week list" where
  "buildWeeks days =
     (let (weeks, currentWeek) = groupWeeks [] emptyWeek days
      in if list_ex (\<lambda>d. d \<noteq> None) currentWeek then weeks @ [currentWeek] else weeks)"

text \<open>The variable \<open>weeks\<close> of \<open>MonthGrid\<close>, from the reading \<open>now\<close> of the clock.\<close>

definition monthWeeks :: "jsdate \<Rightarrow> week list" where
  "monthWeeks now = buildWeeks (getFullMonthDays now)"

record monthView =
  monthTitle :: string
  monthColumns :: "cell option list list"

text \<open>
  \<open>MonthGrid\<close>, lines 178 to 250. It reads the clock for the title, \<open>getFullMonthDays\<close>
  reads it again, and then \<open>isFutureDate\<close> reads it for each cell, column by column. The
  parameter \<open>days\<close> is in the props' type and is not destructured.
\<close>

definition MonthGrid :: "clock \<Rightarrow> string list \<Rightarrow> string list \<Rightarrow> monthView" where
  "MonthGrid clk visits days =
     (let currentDate = clk 0;
          monthName = (if 0 \<le> getMonth currentDate \<and> getMonth currentDate < 12
                       then FULL_MONTH_NAMES ! nat (getMonth currentDate) else []);
          weeks = monthWeeks (clk 1)
      in \<lparr>monthTitle = monthName,
          monthColumns = fst (renderLines clk visits weeks 2)\<rparr>)"

section \<open>The year grid\<close>

text \<open>
  \<open>getFullYearDays\<close>, lines 255 to 271. \<open>yearDaysFrom\<close> is its \<open>while\<close> loop: it pushes the
  current date and moves it one day on until it passes the end date.
\<close>

function yearDaysFrom :: "jsdate \<Rightarrow> jsdate \<Rightarrow> string list" where
  "yearDaysFrom currentDate endDate =
     (if dateLe currentDate endDate
      then formatDate currentDate
             # yearDaysFrom (setDate currentDate (getDate currentDate + 1)) endDate
      else [])"
  by pat_completeness auto
termination
  by (relation "measure (\<lambda>(c, e). nat (dayNumber e + 1 - dayNumber c))")
     (auto simp: dateLe_def dayNumber_setDate)

declare yearDaysFrom.simps [simp del]

definition getFullYearDays :: "jsdate \<Rightarrow> string list" where
  "getFullYearDays now =
     (let year = getFullYear now;
          startDate = newDate year 0 1;
          endDate = newDate year 11 31
      in yearDaysFrom startDate endDate)"

text \<open>
  The month labels, lines 310 to 326: the loop over the week columns with its variable
  \<open>lastMonth\<close>. \<open>week.find(d => d !== null)\<close> is the first non-null entry, and the test
  \<open>if (firstDayInWeek)\<close> fails for a week without one and for the empty string.
\<close>

text \<open>The variable \<open>allWeeks\<close> of \<open>YearGrid\<close>, from the reading \<open>now\<close> of the clock.\<close>

definition yearWeeks :: "jsdate \<Rightarrow> week list" where
  "yearWeeks now = buildWeeks (getFullYearDays now)"

fun monthLabelsFrom :: "string \<Rightarrow> week list \<Rightarrow> string list" where
  "monthLabelsFrom lastMonth [] = []"
| "monthLabelsFrom lastMonth (week # rest) =
     (case find (\<lambda>d. d \<noteq> None) week of
        Some (Some firstDayInWeek) \<Rightarrow>
          if firstDayInWeek \<noteq> [] then
            (let monthKey = take 7 firstDayInWeek
             in if monthKey \<noteq> lastMonth
                then getMonthName monthKey # monthLabelsFrom monthKey rest
                else [] # monthLabelsFrom lastMonth rest)
          else [] # monthLabelsFrom lastMonth rest
      | _ \<Rightarrow> [] # monthLabelsFrom lastMonth rest)"

record yearView =
  yearTitle :: int
  monthLabels :: "string list"
  yearRows :: "cell option list list"

text \<open>
  \<open>YearGrid\<close>, lines 277 to 397. It reads the clock for the year of the title,
  \<open>getFullYearDays\<close> reads it again, and \<open>isFutureDate\<close> reads it for each cell, row by
  row: the outer loop runs over the seven days of the week, the inner one over the week
  columns. \<open>jan1\<close> and \<open>jan1DayOfWeek\<close> (lines 289 and 290) are computed and never used.
  The parameter \<open>days\<close> is in the props' type and is not destructured.
\<close>

definition YearGrid :: "clock \<Rightarrow> string list \<Rightarrow> string list \<Rightarrow> yearView" where
  "YearGrid clk visits days =
     (let currentYear = getFullYear (clk 0);
          allWeeks = yearWeeks (clk 1);
          labels = monthLabelsFrom [] allWeeks;
          rows = map (\<lambda>dayIndex. map (\<lambda>week. week ! dayIndex) allWeeks) [0..<7]
      in \<lparr>yearTitle = currentYear, monthLabels = labels,
          yearRows = fst (renderLines clk visits rows 2)\<rparr>)"

section \<open>Facts about date strings\<close>

lemma digitVal_digitChar: "digitVal (digitChar n) = Some (n mod 10)"
proof -
  have "(48 + n mod 10) mod 256 = 48 + n mod 10"
    by (rule mod_less) (use mod_less_divisor [of 10 n] in linarith)
  then show ?thesis
    by (simp add: digitVal_def digitChar_def Let_def)
qed

lemma digits2: "n < 100 \<Longrightarrow> 10 * (n div 10 mod 10) + n mod 10 = n" for n :: nat
  by (simp add: div_less_iff_less_mult)

lemma digits4:
  fixes n :: nat
  assumes "n < 10000"
  shows "1000 * (n div 1000) + 100 * (n div 100 mod 10) + 10 * (n div 10 mod 10) + n mod 10 = n"
proof -
  define q1 q2 q3 where "q1 = n div 10" and "q2 = n div 100" and "q3 = n div 1000"
  have b: "q3 = q2 div 10" "q2 = q1 div 10"
    by (simp_all add: q1_def q2_def q3_def div_mult2_eq [symmetric])
  have "10 * q3 + q2 mod 10 = q2" "10 * q2 + q1 mod 10 = q1" "10 * q1 + n mod 10 = n"
    unfolding b by (simp_all add: q1_def)
  then have "1000 * q3 + 100 * (q2 mod 10) + 10 * (q1 mod 10) + n mod 10 = n"
    by linarith
  then show ?thesis by (simp add: q1_def q2_def q3_def)
qed

lemma number_pad2: "n < 100 \<Longrightarrow> number (pad2 n) = Some n"
  by (simp add: number_def pad2_def digitVal_digitChar digits2)

lemma number_pad4: "n < 10000 \<Longrightarrow> number (pad4 n) = Some n"
  using digits4 [of n] by (simp add: number_def pad4_def digitVal_digitChar div_less_iff_less_mult)

lemma formatDate_parts:
  "formatDate D = pad4 (nat (getFullYear D)) @ CHR ''-'' # pad2 (nat (getMonth D + 1)) @ CHR ''-'' # pad2 (nat (getDate D))"
  by (simp add: formatDate_def)

lemma length_pad [simp]: "length (pad2 n) = 2" "length (pad4 n) = 4"
  by (simp_all add: pad2_def pad4_def)

lemma length_formatDate: "length (formatDate D) = 10"
  by (simp add: formatDate_def)

lemma formatDate_nonempty: "formatDate D \<noteq> []"
  using length_formatDate [of D] by auto

lemma take7_formatDate:
  "take 7 (formatDate D) = pad4 (nat (getFullYear D)) @ CHR ''-'' # pad2 (nat (getMonth D + 1))"
  by (simp add: formatDate_def)

lemma parse_format:
  assumes "validDate D" "fourDigitYear D"
  shows "parseISODate (formatDate D) = Some D"
proof -
  have m: "0 \<le> getMonth D" "getMonth D \<le> 11" and d: "1 \<le> getDate D" "getDate D \<le> 31"
    using assms(1) daysInMonth_bounds [of "getFullYear D" "getMonth D"]
    by (auto simp: validDate_def)
  have y: "0 \<le> getFullYear D" "getFullYear D \<le> 9999"
    using assms(2) by (auto simp: fourDigitYear_def)
  have s: "take 4 (formatDate D) = pad4 (nat (getFullYear D))"
    "take 2 (drop 5 (formatDate D)) = pad2 (nat (getMonth D + 1))"
    "drop 8 (formatDate D) = pad2 (nat (getDate D))"
    "formatDate D ! 4 = CHR ''-''" "formatDate D ! 7 = CHR ''-''"
    by (simp_all add: formatDate_def nth_append pad2_def pad4_def)
  have n: "number (pad4 (nat (getFullYear D))) = Some (nat (getFullYear D))"
    "number (pad2 (nat (getMonth D + 1))) = Some (nat (getMonth D + 1))"
    "number (pad2 (nat (getDate D))) = Some (nat (getDate D))"
    using m d y by (simp_all add: number_pad2 number_pad4)
  have "\<lparr>getFullYear = int (nat (getFullYear D)), getMonth = int (nat (getMonth D + 1)) - 1,
          getDate = int (nat (getDate D))\<rparr> = D"
    using m d y by simp
  then show ?thesis
    using assms(1) by (simp add: parseISODate_def length_formatDate s n del: of_nat_nat)
qed

definition mondayIndex :: "jsdate \<Rightarrow> nat" where
  "mondayIndex D = nat ((dayNumber D + 3) mod 7)"

lemma monday_step:
  fixes x :: int
  shows "(x + 4) mod 7 = (if (x + 3) mod 7 = 6 then 0 else (x + 3) mod 7 + 1)"
proof -
  define v where "v = (x + 3) mod 7"
  have bounds: "0 \<le> v" "v < 7" by (simp_all add: v_def)
  have "x + 4 = (x + 3) + 1" by simp
  then have "(x + 4) mod 7 = ((x + 3) + 1) mod 7" by (rule arg_cong)
  also have "\<dots> = (v + 1) mod 7"
    unfolding v_def by (rule mod_add_left_eq [symmetric])
  also have "\<dots> = (if v = 6 then 0 else v + 1)"
    using bounds by simp
  finally show ?thesis by (simp only: v_def)
qed

lemma getDayOfWeek_formatDate:
  assumes "validDate D" "fourDigitYear D"
  shows "getDayOfWeek (formatDate D) = Some (mondayIndex D)"
proof -
  have nn: "0 \<le> (dayNumber D + 3) mod 7" by simp
  have "(if getDay D = 0 then 6 else nat (getDay D - 1)) = mondayIndex D"
    unfolding getDay_def WeekDay_def mondayIndex_def monday_step [of "dayNumber D"]
    using nn by (auto simp: nat_eq_iff)
  then show ?thesis
    by (simp add: getDayOfWeek_def parse_format [OF assms])
qed

lemma mondayIndex_less: "mondayIndex D < 7"
  by (simp add: mondayIndex_def nat_less_iff)

lemma getDayOfWeek_less: "getDayOfWeek s = Some k \<Longrightarrow> k < 7"
  by (auto simp: getDayOfWeek_def getDay_def WeekDay_def nat_less_iff split: option.splits if_splits)

lemma mondayIndex_next:
  assumes "dayNumber E = dayNumber D + 1"
  shows "mondayIndex E = (if mondayIndex D = 6 then 0 else mondayIndex D + 1)"
proof -
  have nn: "0 \<le> (dayNumber D + 3) mod 7" by simp
  have "dayNumber E + 3 = dayNumber D + 4" using assms by simp
  then have "mondayIndex E = nat ((dayNumber D + 4) mod 7)"
    unfolding mondayIndex_def by (rule arg_cong)
  then show ?thesis
    unfolding monday_step [of "dayNumber D"] mondayIndex_def
    using nn by (auto simp: nat_eq_iff nat_add_distrib)
qed

section \<open>The days of a month and of a year\<close>

lemma normalize_carry:
  "m < 0 \<or> 11 < m \<Longrightarrow> normalize y m d = normalize (y + m div 12) (m mod 12) d"
  by (subst normalize.simps) simp

lemma normalize_low_Jan: "d < 1 \<Longrightarrow> normalize y 0 d = normalize (y - 1) 11 (d + 31)"
  by (subst normalize.simps) simp

lemma normalize_low:
  "1 \<le> m \<Longrightarrow> m \<le> 11 \<Longrightarrow> d < 1 \<Longrightarrow> normalize y m d = normalize y (m - 1) (d + daysInMonth y (m - 1))"
  by (subst normalize.simps) simp

lemma normalize_high_Dec: "31 < d \<Longrightarrow> normalize y 11 d = normalize (y + 1) 0 (d - 31)"
  by (subst normalize.simps) (simp add: daysInMonth_def)

lemma normalize_high:
  "0 \<le> m \<Longrightarrow> m \<le> 10 \<Longrightarrow> daysInMonth y m < d \<Longrightarrow> normalize y m d = normalize y (m + 1) (d - daysInMonth y m)"
  using daysInMonth_bounds [of y m] by (subst normalize.simps) simp

definition monthDates :: "int \<Rightarrow> int \<Rightarrow> jsdate list" where
  "monthDates y m = map (\<lambda>d. \<lparr>getFullYear = y, getMonth = m, getDate = d\<rparr>) [1..daysInMonth y m]"

definition yearDates :: "int \<Rightarrow> jsdate list" where
  "yearDates y = concat (map (monthDates y) [0..11])"

lemma newDate_last_day:
  assumes "0 \<le> m" "m \<le> 11" "y < 0 \<or> 99 < y"
  shows "newDate y (m + 1) 0 = \<lparr>getFullYear = y, getMonth = m, getDate = daysInMonth y m\<rparr>"
proof (cases "m = 11")
  case True
  have "normalize y 12 0 = normalize (y + 1) 0 0"
    by (subst normalize_carry) simp_all
  also have "\<dots> = normalize y 11 31"
    by (subst normalize_low_Jan) simp_all
  also have "\<dots> = \<lparr>getFullYear = y, getMonth = 11, getDate = 31\<rparr>"
    by (rule normalize_valid) (simp_all add: daysInMonth_def)
  finally show ?thesis
    using True assms(3) by (auto simp: newDate_def daysInMonth_def)
next
  case False
  with assms have m: "1 \<le> m + 1" "m + 1 \<le> 11" by simp_all
  have "normalize y (m + 1) 0 = normalize y m (daysInMonth y m)"
    using normalize_low [OF m, of 0 y] by simp
  also have "\<dots> = \<lparr>getFullYear = y, getMonth = m, getDate = daysInMonth y m\<rparr>"
    using assms daysInMonth_bounds [of y m] by (intro normalize_valid) simp_all
  finally show ?thesis
    using assms(3) by (auto simp: newDate_def)
qed

lemma newDate_valid:
  assumes "0 \<le> m" "m \<le> 11" "y < 0 \<or> 99 < y" "1 \<le> d" "d \<le> daysInMonth y m"
  shows "newDate y m d = \<lparr>getFullYear = y, getMonth = m, getDate = d\<rparr>"
  using assms by (auto simp: newDate_def normalize_valid)

lemma getFullMonthDays_eq:
  assumes "0 \<le> getMonth now" "getMonth now \<le> 11" "getFullYear now < 0 \<or> 99 < getFullYear now"
  shows "getFullMonthDays now = map formatDate (monthDates (getFullYear now) (getMonth now))"
  using assms
  by (simp add: getFullMonthDays_def Let_def newDate_last_day monthDates_def newDate_valid
      cong: map_cong)

lemma month_end_le:
  assumes "0 \<le> m" "m \<le> 11"
  shows "daysBeforeMonth y m + daysInMonth y m \<le> DaysInYear y"
proof -
  from assms have "m = 0 \<or> m = 1 \<or> m = 2 \<or> m = 3 \<or> m = 4 \<or> m = 5 \<or> m = 6 \<or> m = 7
      \<or> m = 8 \<or> m = 9 \<or> m = 10 \<or> m = 11"
    by arith
  then show ?thesis
    by (elim disjE) (simp_all add: daysBeforeMonth_def daysInMonth_def DaysInYear_def)
qed

lemma daysBeforeMonth_nonneg:
  assumes "0 \<le> m" "m \<le> 11"
  shows "0 \<le> daysBeforeMonth y m"
proof -
  from assms have "m = 0 \<or> m = 1 \<or> m = 2 \<or> m = 3 \<or> m = 4 \<or> m = 5 \<or> m = 6 \<or> m = 7
      \<or> m = 8 \<or> m = 9 \<or> m = 10 \<or> m = 11"
    by arith
  then show ?thesis
    by (elim disjE) (simp_all add: daysBeforeMonth_def DaysInYear_def)
qed

lemma dayNumber_valid:
  "validDate D \<Longrightarrow> dayNumber D = DayFromYear (getFullYear D) + daysBeforeMonth (getFullYear D) (getMonth D) + getDate D - 1"
  by (simp add: dayNumber_def validDate_def MakeDay_in_range)

lemma dayNumber_in_year:
  assumes "validDate D"
  shows "DayFromYear (getFullYear D) \<le> dayNumber D"
    and "dayNumber D < DayFromYear (getFullYear D) + DaysInYear (getFullYear D)"
  using assms month_end_le [of "getMonth D" "getFullYear D"]
    daysBeforeMonth_nonneg [of "getMonth D" "getFullYear D"]
  by (simp_all add: dayNumber_valid) (simp_all add: validDate_def)

lemma dayNumber_Dec31:
  "dayNumber \<lparr>getFullYear = y, getMonth = 11, getDate = 31\<rparr> = DayFromYear y + DaysInYear y - 1"
  using daysBeforeMonth_Dec [of y] by (simp add: dayNumber_def MakeDay_in_range)

definition nextDay :: "jsdate \<Rightarrow> jsdate" where
  "nextDay D =
     (if getDate D < daysInMonth (getFullYear D) (getMonth D) then D\<lparr>getDate := getDate D + 1\<rparr>
      else if getMonth D < 11 then \<lparr>getFullYear = getFullYear D, getMonth = getMonth D + 1, getDate = 1\<rparr>
      else \<lparr>getFullYear = getFullYear D + 1, getMonth = 0, getDate = 1\<rparr>)"

lemma setDate_next:
  assumes "validDate D"
  shows "setDate D (getDate D + 1) = nextDay D"
proof -
  obtain y m d where D: "D = \<lparr>getFullYear = y, getMonth = m, getDate = d\<rparr>"
    by (cases D) simp
  have v: "0 \<le> m" "m \<le> 11" "1 \<le> d" "d \<le> daysInMonth y m"
    using assms by (simp_all add: D validDate_def)
  show ?thesis
  proof (cases "d < daysInMonth y m")
    case True
    then show ?thesis
      using v by (simp add: D setDate_def nextDay_def normalize_valid)
  next
    case last: False
    with v have d: "d = daysInMonth y m" by simp
    show ?thesis
    proof (cases "m < 11")
      case True
      have "normalize y m (d + 1) = normalize y (m + 1) 1"
        using v True d by (subst normalize_high) simp_all
      also have "\<dots> = \<lparr>getFullYear = y, getMonth = m + 1, getDate = 1\<rparr>"
        using v True daysInMonth_bounds [of y "m + 1"] by (intro normalize_valid) simp_all
      finally show ?thesis
        using True last by (simp add: D setDate_def nextDay_def)
    next
      case False
      with v have m: "m = 11" by simp
      then have d31: "d = 31" using d by (simp add: daysInMonth_def)
      have "normalize y 11 32 = normalize (y + 1) 0 1"
        by (subst normalize_high_Dec) simp_all
      also have "\<dots> = \<lparr>getFullYear = y + 1, getMonth = 0, getDate = 1\<rparr>"
        by (rule normalize_valid) (simp_all add: daysInMonth_def)
      finally show ?thesis
        by (simp add: D m d31 setDate_def nextDay_def daysInMonth_def)
    qed
  qed
qed

definition restOfYear :: "jsdate \<Rightarrow> jsdate list" where
  "restOfYear D =
     map (\<lambda>d. \<lparr>getFullYear = getFullYear D, getMonth = getMonth D, getDate = d\<rparr>)
         [getDate D..daysInMonth (getFullYear D) (getMonth D)]
       @ concat (map (monthDates (getFullYear D)) [getMonth D + 1..11])"

lemma restOfYear_step:
  assumes "validDate D"
  shows "restOfYear D =
     D # (if getFullYear (nextDay D) = getFullYear D then restOfYear (nextDay D) else [])"
proof -
  obtain y m d where D: "D = \<lparr>getFullYear = y, getMonth = m, getDate = d\<rparr>"
    by (cases D) simp
  have v: "0 \<le> m" "m \<le> 11" "1 \<le> d" "d \<le> daysInMonth y m"
    using assms by (simp_all add: D validDate_def)
  have up: "[d..daysInMonth y m] = d # [d + 1..daysInMonth y m]"
    using v by (simp add: upto_rec1)
  show ?thesis
  proof (cases "d < daysInMonth y m")
    case True
    then show ?thesis
      by (simp add: D restOfYear_def nextDay_def up)
  next
    case last: False
    with v have d: "d = daysInMonth y m" by simp
    show ?thesis
    proof (cases "m < 11")
      case True
      then have "[m + 1..11] = (m + 1) # [m + 1 + 1..11]"
        by (simp add: upto_rec1)
      then show ?thesis
        using True by (simp add: D d restOfYear_def nextDay_def monthDates_def)
    next
      case False
      then show ?thesis
        using v by (simp add: D d restOfYear_def nextDay_def)
    qed
  qed
qed

lemma validDate_nextDay: "validDate D \<Longrightarrow> validDate (nextDay D)"
  using daysInMonth_bounds [of "getFullYear D" "getMonth D + 1"]
  by (auto simp: nextDay_def validDate_def daysInMonth_def)

lemma year_nextDay:
  "validDate D \<Longrightarrow> getFullYear (nextDay D) = getFullYear D \<or>
     (D = \<lparr>getFullYear = getFullYear D, getMonth = 11, getDate = 31\<rparr>
      \<and> nextDay D = \<lparr>getFullYear = getFullYear D + 1, getMonth = 0, getDate = 1\<rparr>)"
  by (cases D) (auto simp: nextDay_def validDate_def daysInMonth_def)

lemma yearDaysFrom_rest:
  "validDate c \<Longrightarrow> e = \<lparr>getFullYear = getFullYear c, getMonth = 11, getDate = 31\<rparr>
   \<Longrightarrow> yearDaysFrom c e = map formatDate (restOfYear c)"
proof (induction c e rule: yearDaysFrom.induct)
  case (1 c e)
  let ?y = "getFullYear c"
  have le: "dateLe c e"
    using dayNumber_in_year(2) [OF "1.prems"(1)] dayNumber_Dec31 [of ?y]
    by (simp add: dateLe_def "1.prems"(2))
  have next_eq: "setDate c (getDate c + 1) = nextDay c"
    by (rule setDate_next [OF "1.prems"(1)])
  have vn: "validDate (nextDay c)"
    by (rule validDate_nextDay [OF "1.prems"(1)])
  show ?case
  proof (cases "getFullYear (nextDay c) = ?y")
    case True
    then have "yearDaysFrom (nextDay c) e = map formatDate (restOfYear (nextDay c))"
      using "1.IH" [OF le] vn "1.prems"(2) by (simp add: next_eq)
    then show ?thesis
      using le True restOfYear_step [OF "1.prems"(1)]
      by (subst yearDaysFrom.simps) (simp add: next_eq)
  next
    case False
    then have n: "nextDay c = \<lparr>getFullYear = ?y + 1, getMonth = 0, getDate = 1\<rparr>"
      using year_nextDay [OF "1.prems"(1)] by auto
    have "dayNumber (nextDay c) = DayFromYear (?y + 1)"
      by (simp add: n dayNumber_def MakeDay_in_range daysBeforeMonth_Jan)
    then have "\<not> dateLe (nextDay c) e"
      using dayNumber_Dec31 [of ?y] DayFromYear_Suc [of ?y]
      by (simp add: dateLe_def "1.prems"(2))
    then have "yearDaysFrom (nextDay c) e = []"
      by (subst yearDaysFrom.simps) simp
    then show ?thesis
      using le False restOfYear_step [OF "1.prems"(1)]
      by (subst yearDaysFrom.simps) (simp add: next_eq)
  qed
qed

lemma getFullYearDays_eq:
  assumes "getFullYear now < 0 \<or> 99 < getFullYear now"
  shows "getFullYearDays now = map formatDate (yearDates (getFullYear now))"
proof -
  let ?y = "getFullYear now"
  let ?s = "\<lparr>getFullYear = ?y, getMonth = 0, getDate = 1\<rparr>"
  have s: "newDate ?y 0 1 = ?s" and e: "newDate ?y 11 31 = \<lparr>getFullYear = ?y, getMonth = 11, getDate = 31\<rparr>"
    using assms by (simp_all add: newDate_valid daysInMonth_def)
  have v: "validDate ?s" by (simp add: validDate_def daysInMonth_def)
  have "[0..11] = 0 # [1..(11::int)]" by (simp add: upto_rec1)
  then have "restOfYear ?s = yearDates ?y"
    by (simp add: restOfYear_def yearDates_def monthDates_def)
  then show ?thesis
    using yearDaysFrom_rest [OF v] by (simp add: getFullYearDays_def s e)
qed

fun consecutive :: "jsdate list \<Rightarrow> bool" where
  "consecutive [] \<longleftrightarrow> True"
| "consecutive [D] \<longleftrightarrow> True"
| "consecutive (D # E # rest) \<longleftrightarrow> dayNumber E = dayNumber D + 1 \<and> consecutive (E # rest)"

lemma consecutive_Cons:
  "consecutive (D # Ds) \<longleftrightarrow> (Ds = [] \<or> dayNumber (hd Ds) = dayNumber D + 1) \<and> consecutive Ds"
  by (cases Ds) auto

lemma consecutive_restOfYear:
  "validDate D \<Longrightarrow> n = nat (DayFromYear (getFullYear D) + DaysInYear (getFullYear D) - dayNumber D)
   \<Longrightarrow> consecutive (restOfYear D) \<and> (\<forall>E\<in>set (restOfYear D). validDate E \<and> getFullYear E = getFullYear D)"
proof (induction n arbitrary: D)
  case 0
  then show ?case
    using dayNumber_in_year(2) [of D] by simp
next
  case (Suc n)
  show ?case
  proof (cases "getFullYear (nextDay D) = getFullYear D")
    case True
    have dn: "dayNumber (nextDay D) = dayNumber D + 1"
      using dayNumber_setDate [of D "getDate D + 1"] setDate_next [OF Suc.prems(1)] by simp
    have "n = nat (DayFromYear (getFullYear (nextDay D)) + DaysInYear (getFullYear (nextDay D))
        - dayNumber (nextDay D))"
      using Suc.prems(2) True dn by simp
    from Suc.IH [OF validDate_nextDay [OF Suc.prems(1)] this]
    have ih: "consecutive (restOfYear (nextDay D))"
      "\<forall>E\<in>set (restOfYear (nextDay D)). validDate E \<and> getFullYear E = getFullYear D"
      using True by simp_all
    have hd: "hd (restOfYear (nextDay D)) = nextDay D"
      using restOfYear_step [OF validDate_nextDay [OF Suc.prems(1)]] by simp
    show ?thesis
      using ih hd dn True Suc.prems(1)
      by (subst (1 2) restOfYear_step [OF Suc.prems(1)]) (simp add: consecutive_Cons)
  next
    case False
    then show ?thesis
      using Suc.prems(1) by (subst (1 2) restOfYear_step [OF Suc.prems(1)]) simp
  qed
qed

lemma yearDates_props:
  "consecutive (yearDates y)" "\<forall>E\<in>set (yearDates y). validDate E \<and> getFullYear E = y"
  "yearDates y \<noteq> []" "hd (yearDates y) = \<lparr>getFullYear = y, getMonth = 0, getDate = 1\<rparr>"
proof -
  let ?s = "\<lparr>getFullYear = y, getMonth = 0, getDate = 1\<rparr>"
  have v: "validDate ?s" by (simp add: validDate_def daysInMonth_def)
  have "[0..11] = 0 # [1..(11::int)]" by (simp add: upto_rec1)
  then have r: "restOfYear ?s = yearDates y"
    by (simp add: restOfYear_def yearDates_def monthDates_def)
  show "consecutive (yearDates y)" "\<forall>E\<in>set (yearDates y). validDate E \<and> getFullYear E = y"
    using consecutive_restOfYear [OF v refl] by (simp_all add: r)
  show "yearDates y \<noteq> []" "hd (yearDates y) = ?s"
    using restOfYear_step [OF v] by (simp_all add: r)
qed

lemma monthDates_props:
  assumes "0 \<le> m" "m \<le> 11"
  shows "consecutive (monthDates y m)"
    and "\<forall>E\<in>set (monthDates y m). validDate E \<and> getFullYear E = y \<and> getMonth E = m"
    and "monthDates y m \<noteq> []" and "hd (monthDates y m) = \<lparr>getFullYear = y, getMonth = m, getDate = 1\<rparr>"
proof -
  have "consecutive (map (\<lambda>d. \<lparr>getFullYear = y, getMonth = m, getDate = d\<rparr>) [a..b])" for a b
  proof (induction "nat (b + 1 - a)" arbitrary: a)
    case 0
    then show ?case by simp
  next
    case (Suc n)
    then have ab: "a \<le> b" by simp
    then have up: "[a..b] = a # [a + 1..b]" by (simp add: upto_rec1)
    have "n = nat (b + 1 - (a + 1))" using Suc(2) by simp
    from Suc(1) [OF this] show ?case
      using MakeDay_shift [of y m a 1]
      by (cases "a + 1 \<le> b") (simp_all add: up consecutive_Cons upto_rec1 [of "a + 1" b] dayNumber_def)
  qed
  then show "consecutive (monthDates y m)" by (simp add: monthDates_def)
  show "\<forall>E\<in>set (monthDates y m). validDate E \<and> getFullYear E = y \<and> getMonth E = m"
    using assms by (auto simp: monthDates_def validDate_def)
  have "[1..daysInMonth y m] = 1 # [2..daysInMonth y m]"
    using daysInMonth_bounds [of y m] by (simp add: upto_rec1)
  then show "monthDates y m \<noteq> []" "hd (monthDates y m) = \<lparr>getFullYear = y, getMonth = m, getDate = 1\<rparr>"
    by (simp_all add: monthDates_def)
qed

section \<open>Grouping consecutive days into week columns\<close>

definition nonNull :: "'a option list \<Rightarrow> 'a list" where
  "nonNull w = map the (filter (\<lambda>d. d \<noteq> None) w)"

fun splitAfterSunday :: "string list \<Rightarrow> string list \<Rightarrow> string list list" where
  "splitAfterSunday segment [] = (if segment = [] then [] else [segment])"
| "splitAfterSunday segment (day # rest) =
     (if getDayOfWeek day = Some 6 then (segment @ [day]) # splitAfterSunday [] rest
      else splitAfterSunday (segment @ [day]) rest)"

lemma length_emptyWeek [simp]: "length emptyWeek = 7"
  by (simp add: emptyWeek_def)

lemma nth_emptyWeek [simp]: "i < 7 \<Longrightarrow> emptyWeek ! i = None"
  by (simp add: emptyWeek_def)

lemma set_emptyWeek: "x \<in> set emptyWeek \<Longrightarrow> x = None"
  by (simp add: emptyWeek_def)

lemma nonNull_emptyWeek [simp]: "nonNull emptyWeek = []"
  by (simp add: nonNull_def emptyWeek_def)

lemma nonNull_Nil_iff: "nonNull w = [] \<longleftrightarrow> \<not> list_ex (\<lambda>d. d \<noteq> None) w"
  by (simp add: nonNull_def list_ex_iff filter_empty_conv del: not_None_eq)

lemma set_nonNull: "d \<in> set (nonNull w) \<longleftrightarrow> Some d \<in> set w"
  by (force simp: nonNull_def image_iff)

lemma nonNull_Nil [simp]: "nonNull [] = []"
  by (simp add: nonNull_def)

lemma nonNull_Cons [simp]: "nonNull (None # w) = nonNull w" "nonNull (Some d # w) = d # nonNull w"
  by (simp_all add: nonNull_def)

lemma nonNull_append: "nonNull (u @ v) = nonNull u @ nonNull v"
  by (simp add: nonNull_def)

lemma nonNull_all_None: "(\<And>x. x \<in> set w \<Longrightarrow> x = None) \<Longrightarrow> nonNull w = []"
  by (simp add: nonNull_def filter_empty_conv del: not_None_eq)

lemma nonNull_update:
  assumes "k < length w" "\<forall>i. k \<le> i \<and> i < length w \<longrightarrow> w ! i = None"
  shows "nonNull (w[k := Some d]) = nonNull w @ [d]"
proof -
  have tail: "nonNull (drop j w) = []" if "k \<le> j" for j
  proof (rule nonNull_all_None)
    fix x
    assume "x \<in> set (drop j w)"
    then obtain i where "i < length w - j" "x = w ! (j + i)"
      by (auto simp: in_set_conv_nth)
    then show "x = None"
      using assms(2) that by simp
  qed
  have "nonNull w = nonNull (take k w @ drop k w)" by simp
  also have "\<dots> = nonNull (take k w)"
    unfolding nonNull_append by (simp add: tail)
  finally have a: "nonNull w = nonNull (take k w)" .
  have "w[k := Some d] = take k w @ Some d # drop (Suc k) w"
    using assms(1) by (rule upd_conv_take_nth_drop)
  then have "nonNull (w[k := Some d]) = nonNull (take k w) @ nonNull [Some d] @ nonNull (drop (Suc k) w)"
    by (simp add: nonNull_append)
  also have "\<dots> = nonNull (take k w) @ [d]"
    by (simp add: tail)
  finally show ?thesis by (simp add: a)
qed

lemma concat_splitAfterSunday: "concat (splitAfterSunday segment days) = segment @ days"
  by (induction days arbitrary: segment) simp_all

lemma splitAfterSunday_nonempty: "[] \<notin> set (splitAfterSunday segment days)"
  by (induction days arbitrary: segment) simp_all

definition closeWeeks :: "week list \<times> week \<Rightarrow> week list" where
  "closeWeeks p = (if nonNull (snd p) = [] then fst p else fst p @ [snd p])"

lemma buildWeeks_closeWeeks: "buildWeeks days = closeWeeks (groupWeeks [] emptyWeek days)"
  by (simp add: buildWeeks_def closeWeeks_def nonNull_Nil_iff split: prod.splits del: not_None_eq)

lemma closeWeeks_simp [simp]:
  "closeWeeks (weeks, cur) = (if nonNull cur = [] then weeks else weeks @ [cur])"
  by (simp add: closeWeeks_def)

lemma groupWeeks_days:
  assumes "\<forall>D\<in>set Ds. validDate D \<and> fourDigitYear D" "consecutive Ds" "length cur = 7"
    and "Ds \<noteq> [] \<longrightarrow> (\<forall>i. mondayIndex (hd Ds) \<le> i \<and> i < 7 \<longrightarrow> cur ! i = None)"
  shows "map nonNull (closeWeeks (groupWeeks weeks cur (map formatDate Ds)))
         = map nonNull weeks @ splitAfterSunday (nonNull cur) (map formatDate Ds)"
  using assms
proof (induction Ds arbitrary: weeks cur)
  case Nil
  then show ?case by simp
next
  case (Cons D Ds)
  let ?k = "mondayIndex D"
  let ?filled = "cur[?k := Some (formatDate D)]"
  have dow: "getDayOfWeek (formatDate D) = Some ?k"
    using Cons.prems(1) by (simp add: getDayOfWeek_formatDate)
  have k7: "?k < 7" by (rule mondayIndex_less)
  have filled: "nonNull ?filled = nonNull cur @ [formatDate D]"
    using Cons.prems(3,4) k7 by (intro nonNull_update) simp_all
  have rest: "\<forall>D\<in>set Ds. validDate D \<and> fourDigitYear D" "consecutive Ds"
    using Cons.prems(1,2) by (simp_all add: consecutive_Cons)
  show ?case
  proof (cases "?k = 6")
    case True
    have step: "groupWeeks weeks cur (map formatDate (D # Ds))
        = groupWeeks (weeks @ [?filled]) emptyWeek (map formatDate Ds)"
      using True by (simp add: dow)
    have pre: "Ds \<noteq> [] \<longrightarrow> (\<forall>i. mondayIndex (hd Ds) \<le> i \<and> i < 7 \<longrightarrow> emptyWeek ! i = None)"
      by simp
    have "map nonNull (closeWeeks (groupWeeks (weeks @ [?filled]) emptyWeek (map formatDate Ds)))
        = map nonNull (weeks @ [?filled]) @ splitAfterSunday (nonNull emptyWeek) (map formatDate Ds)"
      by (rule Cons.IH [OF rest _ pre]) simp
    then show ?thesis
      unfolding step using True filled by (simp add: dow)
  next
    case False
    have step: "groupWeeks weeks cur (map formatDate (D # Ds))
        = groupWeeks weeks ?filled (map formatDate Ds)"
      using False by (simp add: dow)
    have pre: "Ds \<noteq> [] \<longrightarrow> (\<forall>i. mondayIndex (hd Ds) \<le> i \<and> i < 7 \<longrightarrow> ?filled ! i = None)"
    proof (intro impI allI)
      fix i
      assume ne: "Ds \<noteq> []" and i: "mondayIndex (hd Ds) \<le> i \<and> i < 7"
      have "dayNumber (hd Ds) = dayNumber D + 1"
        using Cons.prems(2) ne by (simp add: consecutive_Cons)
      then have "mondayIndex (hd Ds) = ?k + 1"
        using False by (simp add: mondayIndex_next)
      then show "?filled ! i = None"
        using i Cons.prems(3,4) by simp
    qed
    have "map nonNull (closeWeeks (groupWeeks weeks ?filled (map formatDate Ds)))
        = map nonNull weeks @ splitAfterSunday (nonNull ?filled) (map formatDate Ds)"
      by (rule Cons.IH [OF rest _ pre]) (simp add: Cons.prems(3))
    then show ?thesis
      unfolding step using False by (simp add: dow filled)
  qed
qed

lemma buildWeeks_days:
  assumes "\<forall>D\<in>set Ds. validDate D \<and> fourDigitYear D" "consecutive Ds"
  shows "map nonNull (buildWeeks (map formatDate Ds)) = splitAfterSunday [] (map formatDate Ds)"
proof -
  have "Ds \<noteq> [] \<longrightarrow> (\<forall>i. mondayIndex (hd Ds) \<le> i \<and> i < 7 \<longrightarrow> emptyWeek ! i = None)"
    by simp
  from groupWeeks_days [OF assms _ this, of "[]"] show ?thesis
    by (simp add: buildWeeks_closeWeeks)
qed

definition slotted :: "week \<Rightarrow> bool" where
  "slotted w \<longleftrightarrow> length w = 7 \<and> (\<forall>i d. i < 7 \<and> w ! i = Some d \<longrightarrow> getDayOfWeek d = Some i)"

lemma slotted_emptyWeek: "slotted emptyWeek"
  by (auto simp: slotted_def)

lemma slotted_update:
  assumes "slotted w" "getDayOfWeek d = Some k"
  shows "slotted (w[k := Some d])"
  unfolding slotted_def
proof (intro conjI allI impI)
  show "length (w[k := Some d]) = 7"
    using assms(1) by (simp add: slotted_def)
next
  fix i e
  assume a: "i < 7 \<and> w[k := Some d] ! i = Some e"
  show "getDayOfWeek e = Some i"
  proof (cases "i = k")
    case True
    then show ?thesis using a assms by (auto simp: slotted_def)
  next
    case False
    then have "w ! i = Some e" using a by simp
    then show ?thesis using a assms(1) by (simp add: slotted_def)
  qed
qed

lemma groupWeeks_slotted:
  "\<forall>w\<in>set weeks. slotted w \<Longrightarrow> slotted cur \<Longrightarrow>
   (\<forall>w\<in>set (fst (groupWeeks weeks cur days)). slotted w) \<and> slotted (snd (groupWeeks weeks cur days))"
proof (induction days arbitrary: weeks cur)
  case Nil
  then show ?case by simp
next
  case (Cons day days)
  show ?case
  proof (cases "getDayOfWeek day")
    case None
    then show ?thesis using Cons.IH [OF Cons.prems] by simp
  next
    case (Some k)
    have f: "slotted (cur[k := Some day])"
      using Cons.prems(2) Some by (rule slotted_update)
    show ?thesis
    proof (cases "k = 6")
      case True
      have "\<forall>w\<in>set (weeks @ [cur[k := Some day]]). slotted w"
        using Cons.prems(1) f by simp
      from Cons.IH [OF this slotted_emptyWeek] show ?thesis
        using Some True by simp
    next
      case False
      from Cons.IH [OF Cons.prems(1) f] show ?thesis
        using Some False by simp
    qed
  qed
qed

lemma buildWeeks_slotted:
  assumes "w \<in> set (buildWeeks days)"
  shows "slotted w"
proof -
  obtain ws c where g: "groupWeeks [] emptyWeek days = (ws, c)"
    by (cases "groupWeeks [] emptyWeek days")
  have "(\<forall>w\<in>set ws. slotted w) \<and> slotted c"
    using groupWeeks_slotted [of "[]" emptyWeek days] by (simp add: g slotted_emptyWeek)
  then show ?thesis
    using assms by (auto simp: buildWeeks_closeWeeks g split: if_splits)
qed

lemma groupWeeks_prefix: "\<exists>more. fst (groupWeeks weeks cur days) = weeks @ more"
proof (induction days arbitrary: weeks cur)
  case Nil
  then show ?case by simp
next
  case (Cons day days)
  show ?case
  proof (cases "getDayOfWeek day")
    case None
    then show ?thesis using Cons [of weeks cur] by simp
  next
    case (Some k)
    show ?thesis
    proof (cases "k = 6")
      case True
      obtain more where "fst (groupWeeks (weeks @ [cur[k := Some day]]) emptyWeek days)
          = (weeks @ [cur[k := Some day]]) @ more"
        using Cons by blast
      then show ?thesis using Some True by simp
    next
      case False
      then show ?thesis using Cons [of weeks "cur[k := Some day]"] Some by simp
    qed
  qed
qed

definition firstWeek :: "nat \<Rightarrow> week list \<times> week \<Rightarrow> week" where
  "firstWeek n p = (fst p @ [snd p]) ! n"

lemma groupWeeks_padding:
  assumes "\<forall>D\<in>set Ds. validDate D \<and> fourDigitYear D" "consecutive Ds" "length cur = 7"
    and "Ds \<noteq> [] \<longrightarrow> j \<le> mondayIndex (hd Ds)" "\<forall>i<j. cur ! i = None"
  shows "\<forall>i<j. firstWeek (length weeks) (groupWeeks weeks cur (map formatDate Ds)) ! i = None"
  using assms
proof (induction Ds arbitrary: cur)
  case Nil
  then show ?case by (simp add: firstWeek_def)
next
  case (Cons D Ds)
  let ?k = "mondayIndex D"
  let ?filled = "cur[?k := Some (formatDate D)]"
  have dow: "getDayOfWeek (formatDate D) = Some ?k"
    using Cons.prems(1) by (simp add: getDayOfWeek_formatDate)
  have jk: "j \<le> ?k" using Cons.prems(4) by simp
  have filled: "\<forall>i<j. ?filled ! i = None"
    using Cons.prems(5) jk by simp
  have rest: "\<forall>D\<in>set Ds. validDate D \<and> fourDigitYear D" "consecutive Ds"
    using Cons.prems(1,2) by (simp_all add: consecutive_Cons)
  show ?case
  proof (cases "?k = 6")
    case True
    have step: "groupWeeks weeks cur (map formatDate (D # Ds))
        = groupWeeks (weeks @ [?filled]) emptyWeek (map formatDate Ds)"
      using True by (simp add: dow)
    obtain more where "fst (groupWeeks (weeks @ [?filled]) emptyWeek (map formatDate Ds))
        = (weeks @ [?filled]) @ more"
      using groupWeeks_prefix by blast
    then have "firstWeek (length weeks) (groupWeeks (weeks @ [?filled]) emptyWeek (map formatDate Ds))
        = ?filled"
      by (simp add: firstWeek_def nth_append)
    then show ?thesis
      unfolding step using filled by simp
  next
    case False
    have step: "groupWeeks weeks cur (map formatDate (D # Ds))
        = groupWeeks weeks ?filled (map formatDate Ds)"
      using False by (simp add: dow)
    have pre: "Ds \<noteq> [] \<longrightarrow> j \<le> mondayIndex (hd Ds)"
    proof
      assume ne: "Ds \<noteq> []"
      have "dayNumber (hd Ds) = dayNumber D + 1"
        using Cons.prems(2) ne by (simp add: consecutive_Cons)
      then show "j \<le> mondayIndex (hd Ds)"
        using False jk by (simp add: mondayIndex_next)
    qed
    show ?thesis
      unfolding step by (rule Cons.IH [OF rest _ pre filled]) (simp add: Cons.prems(3))
  qed
qed

lemma buildWeeks_padding:
  assumes "\<forall>D\<in>set Ds. validDate D \<and> fourDigitYear D" "consecutive Ds" "Ds \<noteq> []"
    and "i < mondayIndex (hd Ds)"
  shows "hd (buildWeeks (map formatDate Ds)) ! i = None"
proof -
  obtain ws c where g: "groupWeeks [] emptyWeek (map formatDate Ds) = (ws, c)"
    by (cases "groupWeeks [] emptyWeek (map formatDate Ds)")
  have pad: "\<forall>i<mondayIndex (hd Ds). firstWeek (length ([]::week list)) (ws, c) ! i = None"
    unfolding g [symmetric] using mondayIndex_less [of "hd Ds"]
    by (intro groupWeeks_padding [OF assms(1,2)]) auto
  have "splitAfterSunday [] (map formatDate Ds) \<noteq> []"
    using assms(3) concat_splitAfterSunday [of "[]" "map formatDate Ds"] by auto
  then have "map nonNull (buildWeeks (map formatDate Ds)) \<noteq> []"
    using buildWeeks_days [OF assms(1,2)] by simp
  then have ne: "closeWeeks (ws, c) \<noteq> []"
    by (simp add: buildWeeks_closeWeeks g)
  have "hd (closeWeeks (ws, c)) = firstWeek 0 (ws, c)"
    using ne by (cases ws) (auto simp: firstWeek_def split: if_splits)
  then show ?thesis
    using pad assms(4) by (simp add: buildWeeks_closeWeeks g)
qed

section \<open>Rendered cells\<close>

text \<open>What \<open>renderCell\<close> yields for a slot when the clock reads \<open>today\<close>.\<close>

definition slotCell :: "jsdate \<Rightarrow> string list \<Rightarrow> string option \<Rightarrow> cell option" where
  "slotCell today visits day =
     (case day of
        None \<Rightarrow> None
      | Some s \<Rightarrow>
          if s = [] then None
          else Some \<lparr>cellDate = s, isVisited = hasVisit visits s, isFuture = isFutureDate today s\<rparr>)"

lemma renderCell_slotCell: "fst (renderCell clk visits day n) = slotCell (clk n) visits day"
  by (simp add: renderCell_def slotCell_def split: option.splits)

lemma renderCell_count: "snd (renderCell clk visits day n) = n \<or> snd (renderCell clk visits day n) = Suc n"
  by (simp add: renderCell_def split: option.splits)

lemma renderCells_Cons:
  "renderCells clk visits (day # l) n =
     (fst (renderCell clk visits day n) # fst (renderCells clk visits l (snd (renderCell clk visits day n))),
      snd (renderCells clk visits l (snd (renderCell clk visits day n))))"
  by (simp add: split_beta Let_def)

lemma renderLines_Cons:
  "renderLines clk visits (l # ls) n =
     (fst (renderCells clk visits l n) # fst (renderLines clk visits ls (snd (renderCells clk visits l n))),
      snd (renderLines clk visits ls (snd (renderCells clk visits l n))))"
  by (simp add: split_beta Let_def)

declare renderCells.simps(2) [simp del] renderLines.simps(2) [simp del]
declare renderCells_Cons [simp] renderLines_Cons [simp]

lemma renderCells_mono: "n \<le> snd (renderCells clk visits l n)"
proof (induction l arbitrary: n)
  case Nil
  then show ?case by simp
next
  case (Cons day l)
  show ?case
    using renderCell_count [of clk visits day n] Cons [of "snd (renderCell clk visits day n)"]
    by auto
qed

lemma renderLines_mono: "n \<le> snd (renderLines clk visits ls n)"
proof (induction ls arbitrary: n)
  case Nil
  then show ?case by simp
next
  case (Cons l ls)
  show ?case
    using renderCells_mono [of n clk visits l] Cons [of "snd (renderCells clk visits l n)"]
    by simp
qed

lemma renderCell_cong:
  "clk n = clk' n \<Longrightarrow> renderCell clk visits day n = renderCell clk' visits day n"
  by (simp add: renderCell_def split: option.splits)

lemma renderCells_cong:
  "(\<And>k. n \<le> k \<Longrightarrow> k < snd (renderCells clk visits l n) \<Longrightarrow> clk k = clk' k)
   \<Longrightarrow> renderCells clk visits l n = renderCells clk' visits l n"
proof (induction l arbitrary: n)
  case Nil
  then show ?case by simp
next
  case (Cons day l)
  let ?n1 = "snd (renderCell clk visits day n)"
  have total: "snd (renderCells clk visits (day # l) n) = snd (renderCells clk visits l ?n1)"
    by simp
  have n1: "n \<le> ?n1" using renderCell_count [of clk visits day n] by auto
  have first: "renderCell clk visits day n = renderCell clk' visits day n"
  proof (cases "?n1 = n")
    case True
    then show ?thesis by (auto simp: renderCell_def split: option.splits if_splits)
  next
    case False
    then have "?n1 = Suc n" using renderCell_count [of clk visits day n] by auto
    then have "n < snd (renderCells clk visits (day # l) n)"
      using renderCells_mono [of ?n1 clk visits l] unfolding total by simp
    then show ?thesis by (intro renderCell_cong Cons.prems) simp_all
  qed
  have "renderCells clk visits l ?n1 = renderCells clk' visits l ?n1"
  proof (rule Cons.IH)
    fix k
    assume "?n1 \<le> k" "k < snd (renderCells clk visits l ?n1)"
    then show "clk k = clk' k"
      using n1 unfolding total [symmetric] by (intro Cons.prems) simp_all
  qed
  then show ?case
    by (simp add: first)
qed

lemma renderLines_cong:
  "(\<And>k. n \<le> k \<Longrightarrow> k < snd (renderLines clk visits ls n) \<Longrightarrow> clk k = clk' k)
   \<Longrightarrow> renderLines clk visits ls n = renderLines clk' visits ls n"
proof (induction ls arbitrary: n)
  case Nil
  then show ?case by simp
next
  case (Cons l ls)
  let ?n1 = "snd (renderCells clk visits l n)"
  have total: "snd (renderLines clk visits (l # ls) n) = snd (renderLines clk visits ls ?n1)"
    by simp
  have n1: "n \<le> ?n1" by (rule renderCells_mono)
  have first: "renderCells clk visits l n = renderCells clk' visits l n"
  proof (rule renderCells_cong)
    fix k
    assume "n \<le> k" "k < ?n1"
    then show "clk k = clk' k"
      using renderLines_mono [of ?n1 clk visits ls] unfolding total [symmetric]
      by (intro Cons.prems) simp_all
  qed
  have "renderLines clk visits ls ?n1 = renderLines clk' visits ls ?n1"
  proof (rule Cons.IH)
    fix k
    assume "?n1 \<le> k" "k < snd (renderLines clk visits ls ?n1)"
    then show "clk k = clk' k"
      using n1 unfolding total [symmetric] by (intro Cons.prems) simp_all
  qed
  then show ?case
    by (simp add: first)
qed

lemma renderCells_steady:
  "fst (renderCells (\<lambda>_. today) visits l n) = map (slotCell today visits) l"
  by (induction l arbitrary: n) (simp_all add: renderCell_slotCell)

lemma renderLines_steady:
  "fst (renderLines (\<lambda>_. today) visits ls n) = map (map (slotCell today visits)) ls"
  by (induction ls arbitrary: n) (simp_all add: renderCells_steady)

lemma renderCells_cell:
  "Some c \<in> set (fst (renderCells clk visits l n)) \<Longrightarrow>
   \<exists>k. Some c = slotCell (clk k) visits (Some (cellDate c)) \<and> Some (cellDate c) \<in> set l"
proof (induction l arbitrary: n)
  case Nil
  then show ?case by simp
next
  case (Cons day l)
  let ?n1 = "snd (renderCell clk visits day n)"
  from Cons.prems have "Some c = slotCell (clk n) visits day \<or> Some c \<in> set (fst (renderCells clk visits l ?n1))"
    by (auto simp: renderCell_slotCell)
  then show ?case
  proof
    assume a: "Some c = slotCell (clk n) visits day"
    then have "day = Some (cellDate c)"
      by (auto simp: slotCell_def split: option.splits if_splits)
    then show ?thesis using a by auto
  next
    assume "Some c \<in> set (fst (renderCells clk visits l ?n1))"
    from Cons.IH [OF this] show ?thesis by auto
  qed
qed

lemma renderLines_cell:
  "Some c \<in> set (concat (fst (renderLines clk visits ls n))) \<Longrightarrow>
   \<exists>k. Some c = slotCell (clk k) visits (Some (cellDate c)) \<and> Some (cellDate c) \<in> set (concat ls)"
proof (induction ls arbitrary: n)
  case Nil
  then show ?case by simp
next
  case (Cons l ls)
  let ?n1 = "snd (renderCells clk visits l n)"
  from Cons.prems have "Some c \<in> set (fst (renderCells clk visits l n))
      \<or> Some c \<in> set (concat (fst (renderLines clk visits ls ?n1)))"
    by auto
  then show ?case
  proof
    assume "Some c \<in> set (fst (renderCells clk visits l n))"
    from renderCells_cell [OF this] show ?thesis by auto
  next
    assume "Some c \<in> set (concat (fst (renderLines clk visits ls ?n1)))"
    from Cons.IH [OF this] show ?thesis by auto
  qed
qed

lemma slotCell_props:
  assumes "Some c = slotCell today visits (Some s)"
  shows "cellDate c = s" "s \<noteq> []" "isVisited c = hasVisit visits s"
    "isFuture c = isFutureDate today s"
  using assms by (auto simp: slotCell_def split: if_splits)

definition cellDates :: "cell option list list \<Rightarrow> string list" where
  "cellDates lines = map cellDate (nonNull (concat lines))"

lemma renderCells_dates:
  "(\<And>s. Some s \<in> set l \<Longrightarrow> s \<noteq> []) \<Longrightarrow>
   map cellDate (nonNull (fst (renderCells clk visits l n))) = nonNull l"
proof (induction l arbitrary: n)
  case Nil
  then show ?case by simp
next
  case (Cons day l)
  have ih: "map cellDate (nonNull (fst (renderCells clk visits l (snd (renderCell clk visits day n)))))
      = nonNull l"
  proof (rule Cons.IH)
    fix s
    assume "Some s \<in> set l"
    then show "s \<noteq> []" using Cons.prems [of s] by simp
  qed
  show ?case
  proof (cases day)
    case None
    then show ?thesis
      using ih by (simp add: renderCell_def)
  next
    case (Some s)
    then have "s \<noteq> []" using Cons.prems [of s] by simp
    then show ?thesis
      using ih Some by (simp add: renderCell_def)
  qed
qed

lemma renderLines_dates:
  "(\<And>s. Some s \<in> set (concat ls) \<Longrightarrow> s \<noteq> [])
   \<Longrightarrow> cellDates (fst (renderLines clk visits ls n)) = nonNull (concat ls)"
proof (induction ls arbitrary: n)
  case Nil
  then show ?case by (simp add: cellDates_def)
next
  case (Cons l ls)
  have a: "map cellDate (nonNull (fst (renderCells clk visits l n))) = nonNull l"
  proof (rule renderCells_dates)
    fix s
    assume "Some s \<in> set l"
    then show "s \<noteq> []" using Cons.prems [of s] by simp
  qed
  have "cellDates (fst (renderLines clk visits ls (snd (renderCells clk visits l n)))) = nonNull (concat ls)"
  proof (rule Cons.IH)
    fix s
    assume "Some s \<in> set (concat ls)"
    then show "s \<noteq> []" using Cons.prems [of s] by simp
  qed
  then show ?case
    using a by (simp add: cellDates_def nonNull_append)
qed

lemma cell_of_grid:
  assumes "Some c \<in> set (concat (fst (renderLines clk visits ls n)))"
  shows "Some (cellDate c) \<in> set (concat ls)" "cellDate c \<noteq> []"
    "isVisited c = hasVisit visits (cellDate c)"
    "\<exists>k. isFuture c = isFutureDate (clk k) (cellDate c)"
proof -
  obtain k where k: "Some c = slotCell (clk k) visits (Some (cellDate c))"
    and m: "Some (cellDate c) \<in> set (concat ls)"
    using renderLines_cell [OF assms] by blast
  show "Some (cellDate c) \<in> set (concat ls)" by (rule m)
  show "cellDate c \<noteq> []" "isVisited c = hasVisit visits (cellDate c)"
    using slotCell_props [OF k] by blast+
  show "\<exists>k. isFuture c = isFutureDate (clk k) (cellDate c)"
    using slotCell_props(4) [OF k] by blast
qed

lemma yearRows_slots:
  assumes "\<forall>w\<in>set weeks. length w = 7"
  shows "set (concat (map (\<lambda>dayIndex. map (\<lambda>week. week ! dayIndex) weeks) [0..<7])) = set (concat weeks)"
proof (intro set_eqI iffI)
  fix x
  assume "x \<in> set (concat (map (\<lambda>dayIndex. map (\<lambda>week. week ! dayIndex) weeks) [0..<7]))"
  then obtain i w where "i < 7" "w \<in> set weeks" "x = w ! i" by auto
  then show "x \<in> set (concat weeks)"
    using assms by (auto intro!: bexI [of _ w])
next
  fix x
  assume "x \<in> set (concat weeks)"
  then obtain w where w: "w \<in> set weeks" "x \<in> set w" by auto
  then obtain i where "i < 7" "x = w ! i"
    using assms by (metis in_set_conv_nth)
  then show "x \<in> set (concat (map (\<lambda>dayIndex. map (\<lambda>week. week ! dayIndex) weeks) [0..<7]))"
    using w(1) by auto
qed

section \<open>The week columns of the month and of the year\<close>

text \<open>
  \<open>clockYear\<close>: the year of a clock reading is read by \<open>new Date(year, ...)\<close> as it is
  (from 100 on) and fits the four digits of the date format.
\<close>

lemma nonNull_concat: "nonNull (concat ws) = concat (map nonNull ws)"
  by (induction ws) (simp_all add: nonNull_append)

lemma set_monthDates:
  "D \<in> set (monthDates y m) \<longleftrightarrow>
     getFullYear D = y \<and> getMonth D = m \<and> 1 \<le> getDate D \<and> getDate D \<le> daysInMonth y m"
  by (cases D) (auto simp: monthDates_def)

lemma set_yearDates_aux:
  "D \<in> set (yearDates y) \<longleftrightarrow> (\<exists>m\<in>{0..11}. D \<in> set (monthDates y m))"
  unfolding yearDates_def set_concat set_map set_upto by blast

lemma set_yearDates: "D \<in> set (yearDates y) \<longleftrightarrow> validDate D \<and> getFullYear D = y"
  unfolding set_yearDates_aux
proof
  assume "\<exists>m\<in>{0..11}. D \<in> set (monthDates y m)"
  then obtain m where "0 \<le> m" "m \<le> 11" "D \<in> set (monthDates y m)" by auto
  then show "validDate D \<and> getFullYear D = y" by (simp add: set_monthDates validDate_def)
next
  assume a: "validDate D \<and> getFullYear D = y"
  then have "D \<in> set (monthDates y (getMonth D))" by (auto simp: set_monthDates validDate_def)
  moreover have "getMonth D \<in> {0..11}" using a by (simp add: validDate_def)
  ultimately show "\<exists>m\<in>{0..11}. D \<in> set (monthDates y m)" by blast
qed

lemma formatDate_inject:
  assumes "validDate D" "fourDigitYear D" "validDate E" "fourDigitYear E"
    and "formatDate D = formatDate E"
  shows "D = E"
proof -
  have "Some D = parseISODate (formatDate D)"
    by (simp only: parse_format [OF assms(1,2)])
  also have "\<dots> = parseISODate (formatDate E)"
    by (simp only: assms(5))
  also have "\<dots> = Some E"
    by (simp only: parse_format [OF assms(3,4)])
  finally show ?thesis by simp
qed

lemma distinct_monthDates: "distinct (monthDates y m)"
  by (simp add: monthDates_def distinct_map inj_on_def)

definition clockYear :: "jsdate \<Rightarrow> bool" where
  "clockYear now \<longleftrightarrow> 100 \<le> getFullYear now \<and> getFullYear now \<le> 9999"

lemma month_dates_valid:
  assumes "validDate now" "clockYear now" "D \<in> set (monthDates (getFullYear now) (getMonth now))"
  shows "validDate D" "fourDigitYear D"
proof -
  have f: "getFullYear D = getFullYear now" "getMonth D = getMonth now" "1 \<le> getDate D"
    "getDate D \<le> daysInMonth (getFullYear now) (getMonth now)"
    using assms(3) unfolding set_monthDates by blast+
  show "validDate D"
    using assms(1) unfolding validDate_def f by (simp add: f)
  show "fourDigitYear D"
    using assms(2) unfolding fourDigitYear_def clockYear_def f by simp
qed

lemma year_dates_valid:
  assumes "clockYear now" "D \<in> set (yearDates (getFullYear now))"
  shows "validDate D" "fourDigitYear D"
proof -
  have f: "validDate D" "getFullYear D = getFullYear now"
    using assms(2) unfolding set_yearDates by blast+
  show "validDate D" by (rule f(1))
  show "fourDigitYear D"
    using assms(1) unfolding fourDigitYear_def clockYear_def f by simp
qed

lemma month_facts:
  assumes "validDate now" "clockYear now"
  shows "getFullMonthDays now = map formatDate (monthDates (getFullYear now) (getMonth now))"
    and "map nonNull (monthWeeks now)
           = splitAfterSunday [] (map formatDate (monthDates (getFullYear now) (getMonth now)))"
proof -
  let ?Ds = "monthDates (getFullYear now) (getMonth now)"
  have m: "0 \<le> getMonth now" "getMonth now \<le> 11"
    using assms(1) unfolding validDate_def by blast+
  have y: "getFullYear now < 0 \<or> 99 < getFullYear now"
    using assms(2) unfolding clockYear_def by linarith
  show days: "getFullMonthDays now = map formatDate ?Ds"
    by (rule getFullMonthDays_eq [OF m y])
  have valid: "\<forall>D\<in>set ?Ds. validDate D \<and> fourDigitYear D"
    using month_dates_valid [OF assms] by blast
  have cons: "consecutive ?Ds"
    by (rule monthDates_props(1) [OF m])
  show "map nonNull (monthWeeks now) = splitAfterSunday [] (map formatDate ?Ds)"
    unfolding monthWeeks_def days by (rule buildWeeks_days [OF valid cons])
qed

lemma year_facts:
  assumes "clockYear now"
  shows "getFullYearDays now = map formatDate (yearDates (getFullYear now))"
    and "map nonNull (yearWeeks now)
           = splitAfterSunday [] (map formatDate (yearDates (getFullYear now)))"
proof -
  let ?Ds = "yearDates (getFullYear now)"
  have y: "getFullYear now < 0 \<or> 99 < getFullYear now"
    using assms unfolding clockYear_def by linarith
  show days: "getFullYearDays now = map formatDate ?Ds"
    by (rule getFullYearDays_eq [OF y])
  have valid: "\<forall>D\<in>set ?Ds. validDate D \<and> fourDigitYear D"
    using year_dates_valid [OF assms] by blast
  have cons: "consecutive ?Ds"
    by (rule yearDates_props(1))
  show "map nonNull (yearWeeks now) = splitAfterSunday [] (map formatDate ?Ds)"
    unfolding yearWeeks_def days by (rule buildWeeks_days [OF valid cons])
qed

lemma weeks_days:
  assumes "map nonNull weeks = splitAfterSunday [] days"
  shows "nonNull (concat weeks) = days" and "Some s \<in> set (concat weeks) \<longleftrightarrow> s \<in> set days"
    and "\<forall>w\<in>set weeks. nonNull w \<noteq> []"
proof -
  show d: "nonNull (concat weeks) = days"
    using concat_splitAfterSunday [of "[]" days] by (simp add: nonNull_concat assms)
  show "Some s \<in> set (concat weeks) \<longleftrightarrow> s \<in> set days"
    using set_nonNull [of s "concat weeks"] by (simp add: d)
  have "[] \<notin> set (map nonNull weeks)"
    unfolding assms by (rule splitAfterSunday_nonempty)
  then show "\<forall>w\<in>set weeks. nonNull w \<noteq> []" by (metis image_eqI list.set_map)
qed

text \<open>
  What the grouping loop yields for a run of consecutive days: the columns are the days
  cut after each Sunday, every column has seven slots and at least one day, every day
  sits in the slot of its day of the week, and the first column is empty before the
  slot of the first day.
\<close>

definition groupedByWeek :: "week list \<Rightarrow> string list \<Rightarrow> bool" where
  "groupedByWeek weeks days \<longleftrightarrow>
     map nonNull weeks = splitAfterSunday [] days
     \<and> (\<forall>w\<in>set weeks. length w = 7 \<and> nonNull w \<noteq> []
           \<and> (\<forall>i d. i < 7 \<and> w ! i = Some d \<longrightarrow> getDayOfWeek d = Some i))
     \<and> (\<forall>i k. getDayOfWeek (hd days) = Some k \<and> i < k \<longrightarrow> hd weeks ! i = None)"

lemma buildWeeks_grouped:
  assumes "\<forall>D\<in>set Ds. validDate D \<and> fourDigitYear D" "consecutive Ds" "Ds \<noteq> []"
  shows "groupedByWeek (buildWeeks (map formatDate Ds)) (map formatDate Ds)"
  unfolding groupedByWeek_def
proof (intro conjI ballI allI impI)
  show split: "map nonNull (buildWeeks (map formatDate Ds)) = splitAfterSunday [] (map formatDate Ds)"
    by (rule buildWeeks_days [OF assms(1,2)])
  fix w
  assume w: "w \<in> set (buildWeeks (map formatDate Ds))"
  show "length w = 7"
    using buildWeeks_slotted [OF w] unfolding slotted_def by blast
  show "nonNull w \<noteq> []"
    using weeks_days(3) [OF split] w by blast
  fix i d
  assume "i < 7 \<and> w ! i = Some d"
  then show "getDayOfWeek d = Some i"
    using buildWeeks_slotted [OF w] unfolding slotted_def by blast
next
  fix i k
  assume a: "getDayOfWeek (hd (map formatDate Ds)) = Some k \<and> i < k"
  have hd: "hd (map formatDate Ds) = formatDate (hd Ds)"
    using assms(3) by (simp add: hd_map)
  have "validDate (hd Ds) \<and> fourDigitYear (hd Ds)"
    using assms(1,3) by simp
  then have "getDayOfWeek (formatDate (hd Ds)) = Some (mondayIndex (hd Ds))"
    by (simp add: getDayOfWeek_formatDate)
  then have "i < mondayIndex (hd Ds)"
    using a unfolding hd by simp
  then show "hd (buildWeeks (map formatDate Ds)) ! i = None"
    by (rule buildWeeks_padding [OF assms])
qed

section \<open>Cells under a steady clock\<close>

lemma monthColumns_steady:
  "monthColumns (MonthGrid (\<lambda>_. today) visits days)
     = map (map (slotCell today visits)) (monthWeeks today)"
  unfolding MonthGrid_def Let_def renderLines_steady by simp

lemma yearRows_steady:
  "yearRows (YearGrid (\<lambda>_. today) visits days)
     = map (map (slotCell today visits))
         (map (\<lambda>dayIndex. map (\<lambda>week. week ! dayIndex) (yearWeeks today)) [0..<7])"
  unfolding YearGrid_def Let_def renderLines_steady by simp

lemma slotCell_formatDate:
  "slotCell today visits (Some (formatDate D)) =
     Some \<lparr>cellDate = formatDate D, isVisited = hasVisit visits (formatDate D),
            isFuture = isFutureDate today (formatDate D)\<rparr>"
  using formatDate_nonempty [of D] by (simp add: slotCell_def)

lemma slotCell_in_lines:
  assumes "Some s \<in> set (concat ls)"
  shows "slotCell today visits (Some s) \<in> set (concat (map (map (slotCell today visits)) ls))"
  using assms unfolding map_concat [symmetric] set_map by (rule imageI)

lemma month_cell_exists:
  assumes "validDate today" "clockYear today"
    and "D \<in> set (monthDates (getFullYear today) (getMonth today))"
  shows "Some \<lparr>cellDate = formatDate D, isVisited = hasVisit visits (formatDate D),
                isFuture = isFutureDate today (formatDate D)\<rparr>
           \<in> set (concat (monthColumns (MonthGrid (\<lambda>_. today) visits days)))"
proof -
  have "formatDate D \<in> set (map formatDate (monthDates (getFullYear today) (getMonth today)))"
    using assms(3) unfolding set_map by (rule imageI)
  then have "Some (formatDate D) \<in> set (concat (monthWeeks today))"
    using weeks_days(2) [OF month_facts(2) [OF assms(1,2)]] by blast
  then show ?thesis
    unfolding monthColumns_steady slotCell_formatDate [symmetric] by (rule slotCell_in_lines)
qed

lemma year_cell_exists:
  assumes "clockYear today" and "D \<in> set (yearDates (getFullYear today))"
  shows "Some \<lparr>cellDate = formatDate D, isVisited = hasVisit visits (formatDate D),
                isFuture = isFutureDate today (formatDate D)\<rparr>
           \<in> set (concat (yearRows (YearGrid (\<lambda>_. today) visits days)))"
proof -
  let ?rows = "map (\<lambda>dayIndex. map (\<lambda>week. week ! dayIndex) (yearWeeks today)) [0..<7]"
  have len: "\<forall>w\<in>set (yearWeeks today). length w = 7"
    using buildWeeks_slotted unfolding yearWeeks_def slotted_def by blast
  have "formatDate D \<in> set (map formatDate (yearDates (getFullYear today)))"
    using assms(2) unfolding set_map by (rule imageI)
  then have "Some (formatDate D) \<in> set (concat (yearWeeks today))"
    using weeks_days(2) [OF year_facts(2) [OF assms(1)]] by blast
  then have "Some (formatDate D) \<in> set (concat ?rows)"
    unfolding yearRows_slots [OF len] .
  then show ?thesis
    unfolding yearRows_steady slotCell_formatDate [symmetric] by (rule slotCell_in_lines)
qed

section \<open>The order of date strings\<close>

lemma of_char_digitChar: "of_char (digitChar n) = 48 + n mod 10"
proof -
  have "(48 + n mod 10) mod 256 = 48 + n mod 10"
    by (rule mod_less) (use mod_less_divisor [of 10 n] in linarith)
  then show ?thesis by (simp add: digitChar_def)
qed

lemma digitChar_less: "digitChar a < digitChar b \<longleftrightarrow> a mod 10 < b mod 10"
  by (simp add: less_char_def of_char_digitChar)

lemma digitChar_eq: "digitChar a = digitChar b \<longleftrightarrow> a mod 10 = b mod 10"
proof -
  have "digitChar a = digitChar b \<longleftrightarrow> (of_char (digitChar a) :: nat) = of_char (digitChar b)"
    by (simp only: of_char_eq_iff)
  then show ?thesis by (simp add: of_char_digitChar)
qed

lemma lex2:
  fixes a1 a0 b1 b0 :: nat
  assumes "a0 < 10" "b0 < 10"
  shows "10 * a1 + a0 < 10 * b1 + b0 \<longleftrightarrow> a1 < b1 \<or> (a1 = b1 \<and> a0 < b0)"
  using assms by auto

lemma pad2_less:
  assumes "a < 100" "b < 100"
  shows "pad2 a < pad2 b \<longleftrightarrow> a < b"
proof -
  have q: "a div 10 mod 10 = a div 10" "b div 10 mod 10 = b div 10"
    using assms by (simp_all add: div_less_iff_less_mult)
  have "pad2 a < pad2 b \<longleftrightarrow>
      a div 10 < b div 10 \<or> (a div 10 = b div 10 \<and> a mod 10 < b mod 10)"
    by (simp add: pad2_def digitChar_less digitChar_eq q)
  also have "\<dots> \<longleftrightarrow> 10 * (a div 10) + a mod 10 < 10 * (b div 10) + b mod 10"
    by (rule lex2 [symmetric]) simp_all
  finally show ?thesis by simp
qed

lemma pad2_eq:
  assumes "a < 100" "b < 100"
  shows "pad2 a = pad2 b \<longleftrightarrow> a = b"
proof
  assume "pad2 a = pad2 b"
  then have "number (pad2 a) = number (pad2 b)" by (rule arg_cong)
  then show "a = b"
    unfolding number_pad2 [OF assms(1)] number_pad2 [OF assms(2)] by simp
next
  assume "a = b"
  then show "pad2 a = pad2 b" by simp
qed

lemma pad4_eq:
  assumes "a < 10000" "b < 10000"
  shows "pad4 a = pad4 b \<longleftrightarrow> a = b"
proof
  assume "pad4 a = pad4 b"
  then have "number (pad4 a) = number (pad4 b)" by (rule arg_cong)
  then show "a = b"
    unfolding number_pad4 [OF assms(1)] number_pad4 [OF assms(2)] by simp
next
  assume "a = b"
  then show "pad4 a = pad4 b" by simp
qed

lemma lex4:
  fixes a3 a2 a1 a0 b3 b2 b1 b0 :: nat
  assumes "a2 < 10" "a1 < 10" "a0 < 10" "b2 < 10" "b1 < 10" "b0 < 10"
  shows "1000 * a3 + 100 * a2 + 10 * a1 + a0 < 1000 * b3 + 100 * b2 + 10 * b1 + b0 \<longleftrightarrow>
     a3 < b3 \<or> (a3 = b3 \<and> (a2 < b2 \<or> (a2 = b2 \<and> (a1 < b1 \<or> (a1 = b1 \<and> a0 < b0)))))"
  using assms by auto

lemma pad4_less:
  assumes "a < 10000" "b < 10000"
  shows "pad4 a < pad4 b \<longleftrightarrow> a < b"
proof -
  have q: "a div 1000 mod 10 = a div 1000" "b div 1000 mod 10 = b div 1000"
    using assms by (simp_all add: div_less_iff_less_mult)
  have "pad4 a < pad4 b \<longleftrightarrow>
      a div 1000 < b div 1000 \<or> (a div 1000 = b div 1000 \<and>
        (a div 100 mod 10 < b div 100 mod 10 \<or> (a div 100 mod 10 = b div 100 mod 10 \<and>
          (a div 10 mod 10 < b div 10 mod 10 \<or> (a div 10 mod 10 = b div 10 mod 10 \<and>
            a mod 10 < b mod 10)))))"
    by (simp add: pad4_def digitChar_less digitChar_eq q)
  also have "\<dots> \<longleftrightarrow> 1000 * (a div 1000) + 100 * (a div 100 mod 10) + 10 * (a div 10 mod 10) + a mod 10
      < 1000 * (b div 1000) + 100 * (b div 100 mod 10) + 10 * (b div 10 mod 10) + b mod 10"
    by (rule lex4 [symmetric]) simp_all
  finally show ?thesis
    unfolding digits4 [OF assms(1)] digits4 [OF assms(2)] .
qed

lemma append_less:
  fixes u v x y :: string
  assumes "length u = length v"
  shows "u @ x < v @ y \<longleftrightarrow> u < v \<or> (u = v \<and> x < y)"
  using assms by (induction u v rule: list_induct2) auto

text \<open>The calendar order of two dates: by year, then by month, then by day.\<close>

definition before :: "jsdate \<Rightarrow> jsdate \<Rightarrow> bool" where
  "before D E \<longleftrightarrow>
     getFullYear D < getFullYear E
     \<or> (getFullYear D = getFullYear E
         \<and> (getMonth D < getMonth E \<or> (getMonth D = getMonth E \<and> getDate D < getDate E)))"

lemma formatDate_less:
  assumes "validDate D" "fourDigitYear D" "validDate E" "fourDigitYear E"
  shows "formatDate D < formatDate E \<longleftrightarrow> before D E"
proof -
  have d: "0 \<le> getMonth D" "getMonth D \<le> 11" "1 \<le> getDate D" "getDate D \<le> 31"
    "0 \<le> getFullYear D" "getFullYear D \<le> 9999"
    using assms(1,2) daysInMonth_bounds [of "getFullYear D" "getMonth D"]
    by (auto simp: validDate_def fourDigitYear_def)
  have e: "0 \<le> getMonth E" "getMonth E \<le> 11" "1 \<le> getDate E" "getDate E \<le> 31"
    "0 \<le> getFullYear E" "getFullYear E \<le> 9999"
    using assms(3,4) daysInMonth_bounds [of "getFullYear E" "getMonth E"]
    by (auto simp: validDate_def fourDigitYear_def)
  have y: "pad4 (nat (getFullYear D)) < pad4 (nat (getFullYear E)) \<longleftrightarrow> getFullYear D < getFullYear E"
    "pad4 (nat (getFullYear D)) = pad4 (nat (getFullYear E)) \<longleftrightarrow> getFullYear D = getFullYear E"
  proof -
    have n: "nat (getFullYear D) < 10000" "nat (getFullYear E) < 10000"
      using d e by simp_all
    have "nat (getFullYear D) < nat (getFullYear E) \<longleftrightarrow> getFullYear D < getFullYear E"
      "nat (getFullYear D) = nat (getFullYear E) \<longleftrightarrow> getFullYear D = getFullYear E"
      using d e by arith+
    then show "pad4 (nat (getFullYear D)) < pad4 (nat (getFullYear E)) \<longleftrightarrow> getFullYear D < getFullYear E"
      "pad4 (nat (getFullYear D)) = pad4 (nat (getFullYear E)) \<longleftrightarrow> getFullYear D = getFullYear E"
      unfolding pad4_less [OF n] pad4_eq [OF n] by blast+
  qed
  have m: "pad2 (nat (getMonth D + 1)) < pad2 (nat (getMonth E + 1)) \<longleftrightarrow> getMonth D < getMonth E"
    "pad2 (nat (getMonth D + 1)) = pad2 (nat (getMonth E + 1)) \<longleftrightarrow> getMonth D = getMonth E"
  proof -
    have n: "nat (getMonth D + 1) < 100" "nat (getMonth E + 1) < 100"
      using d e by simp_all
    have "nat (getMonth D + 1) < nat (getMonth E + 1) \<longleftrightarrow> getMonth D < getMonth E"
      "nat (getMonth D + 1) = nat (getMonth E + 1) \<longleftrightarrow> getMonth D = getMonth E"
      using d e by arith+
    then show "pad2 (nat (getMonth D + 1)) < pad2 (nat (getMonth E + 1)) \<longleftrightarrow> getMonth D < getMonth E"
      "pad2 (nat (getMonth D + 1)) = pad2 (nat (getMonth E + 1)) \<longleftrightarrow> getMonth D = getMonth E"
      unfolding pad2_less [OF n] pad2_eq [OF n] by blast+
  qed
  have dd: "pad2 (nat (getDate D)) < pad2 (nat (getDate E)) \<longleftrightarrow> getDate D < getDate E"
  proof -
    have n: "nat (getDate D) < 100" "nat (getDate E) < 100"
      using d e by simp_all
    have "nat (getDate D) < nat (getDate E) \<longleftrightarrow> getDate D < getDate E"
      using d e by arith
    then show ?thesis
      unfolding pad2_less [OF n] by blast
  qed
  have "formatDate D < formatDate E \<longleftrightarrow>
      pad4 (nat (getFullYear D)) @ CHR ''-'' # pad2 (nat (getMonth D + 1)) @ CHR ''-'' # pad2 (nat (getDate D))
      < pad4 (nat (getFullYear E)) @ CHR ''-'' # pad2 (nat (getMonth E + 1)) @ CHR ''-'' # pad2 (nat (getDate E))"
    by (simp add: formatDate_def)
  also have "\<dots> \<longleftrightarrow> before D E"
    unfolding before_def by (simp add: append_less y m dd)
  finally show ?thesis .
qed

lemma DaysInYear_pos: "0 < DaysInYear y"
  by (simp add: DaysInYear_def)

lemma DayFromYear_mono:
  assumes "a \<le> b"
  shows "DayFromYear a \<le> DayFromYear b"
proof -
  have "DayFromYear a \<le> DayFromYear (a + int n)" for n
  proof (induction n)
    case 0
    then show ?case by simp
  next
    case (Suc n)
    have "a + int (Suc n) = (a + int n) + 1" by simp
    then have "DayFromYear (a + int (Suc n)) = DayFromYear (a + int n) + DaysInYear (a + int n)"
      by (simp only: DayFromYear_Suc)
    then show ?case
      using Suc DaysInYear_pos [of "a + int n"] by linarith
  qed
  from this [of "nat (b - a)"] show ?thesis
    using assms by simp
qed

lemma daysBeforeMonth_mono:
  assumes "0 \<le> a" "a \<le> b" "b \<le> 11"
  shows "daysBeforeMonth y a \<le> daysBeforeMonth y b"
proof -
  have "a + int n \<le> 11 \<Longrightarrow> daysBeforeMonth y a \<le> daysBeforeMonth y (a + int n)" for n
  proof (induction n)
    case 0
    then show ?case by simp
  next
    case (Suc n)
    have s: "a + int (Suc n) = (a + int n) + 1" by simp
    have le: "a + int n \<le> 11" "a + int n \<le> 10" "0 \<le> a + int n"
      using Suc.prems assms(1) by simp_all
    have "daysBeforeMonth y (a + int n + 1) = daysBeforeMonth y (a + int n) + daysInMonth y (a + int n)"
      using le by (intro daysBeforeMonth_Suc)
    then show ?case
      unfolding s using Suc.IH [OF le(1)] daysInMonth_bounds [of y "a + int n"] by linarith
  qed
  from this [of "nat (b - a)"] show ?thesis
    using assms by simp
qed

lemma before_dayNumber:
  assumes "validDate D" "validDate E" "before D E"
  shows "dayNumber D < dayNumber E"
proof -
  let ?y = "getFullYear D" and ?z = "getFullYear E"
  have d: "0 \<le> getMonth D" "getMonth D \<le> 11" "1 \<le> getDate D"
    "getDate D \<le> daysInMonth ?y (getMonth D)"
    using assms(1) by (auto simp: validDate_def)
  have e: "0 \<le> getMonth E" "getMonth E \<le> 11" "1 \<le> getDate E"
    using assms(2) by (auto simp: validDate_def)
  consider "?y < ?z" | "?y = ?z" "getMonth D < getMonth E"
    | "?y = ?z" "getMonth D = getMonth E" "getDate D < getDate E"
    using assms(3) unfolding before_def by blast
  then show ?thesis
  proof cases
    case 1
    have "dayNumber D < DayFromYear (?y + 1)"
      using dayNumber_in_year(2) [OF assms(1)] by (simp add: DayFromYear_Suc)
    also have "\<dots> \<le> DayFromYear ?z"
      using 1 by (intro DayFromYear_mono) simp
    also have "\<dots> \<le> dayNumber E"
      by (rule dayNumber_in_year(1) [OF assms(2)])
    finally show ?thesis .
  next
    case 2
    have "daysBeforeMonth ?y (getMonth D) + getDate D \<le> daysBeforeMonth ?y (getMonth D + 1)"
      using d 2(2) e(2) by (simp add: daysBeforeMonth_Suc)
    also have "\<dots> \<le> daysBeforeMonth ?y (getMonth E)"
      using d 2(2) e(2) by (intro daysBeforeMonth_mono) simp_all
    finally show ?thesis
      using e(3) 2(1) by (simp add: dayNumber_valid assms(1,2))
  next
    case 3
    then show ?thesis
      by (simp add: dayNumber_valid assms(1,2))
  qed
qed

lemma dayNumber_less:
  assumes "validDate D" "validDate E"
  shows "dayNumber D < dayNumber E \<longleftrightarrow> before D E"
proof
  assume lt: "dayNumber D < dayNumber E"
  have "before D E \<or> before E D \<or> D = E"
    unfolding before_def by (cases D, cases E) auto
  then show "before D E"
    using lt before_dayNumber [OF assms(2,1)] by auto
next
  assume "before D E"
  then show "dayNumber D < dayNumber E"
    by (rule before_dayNumber [OF assms])
qed

section \<open>The clock readings of one render\<close>

text \<open>
  The number of times one render evaluates \<open>new Date()\<close>: the counter that the rendering
  of the cells returns.
\<close>

definition weekClockReads :: "int \<Rightarrow> clock \<Rightarrow> string list \<Rightarrow> string list \<Rightarrow> nat" where
  "weekClockReads utcOffset clk visits days =
     (case getFullWeekDays utcOffset days of
        None \<Rightarrow> 0
      | Some fullWeekDays \<Rightarrow> snd (renderCells clk visits fullWeekDays 0))"

definition monthClockReads :: "clock \<Rightarrow> string list \<Rightarrow> nat" where
  "monthClockReads clk visits = snd (renderLines clk visits (monthWeeks (clk 1)) 2)"

definition yearClockReads :: "clock \<Rightarrow> string list \<Rightarrow> nat" where
  "yearClockReads clk visits =
     snd (renderLines clk visits
            (map (\<lambda>dayIndex. map (\<lambda>week. week ! dayIndex) (yearWeeks (clk 1))) [0..<7]) 2)"

lemma renderCells_count:
  "snd (renderCells clk visits l n) = n + length (nonNull (fst (renderCells clk visits l n)))"
proof (induction l arbitrary: n)
  case Nil
  then show ?case by simp
next
  case (Cons day l)
  show ?case
  proof (cases "fst (renderCell clk visits day n)")
    case None
    then have "snd (renderCell clk visits day n) = n"
      by (auto simp: renderCell_def split: option.splits if_splits)
    then show ?thesis
      using Cons [of n] None by simp
  next
    case (Some c)
    then have "snd (renderCell clk visits day n) = Suc n"
      by (auto simp: renderCell_def split: option.splits if_splits)
    then show ?thesis
      using Cons [of "Suc n"] Some by simp
  qed
qed

lemma renderLines_count:
  "snd (renderLines clk visits ls n) = n + length (cellDates (fst (renderLines clk visits ls n)))"
proof (induction ls arbitrary: n)
  case Nil
  then show ?case by (simp add: cellDates_def)
next
  case (Cons l ls)
  show ?case
    using Cons [of "snd (renderCells clk visits l n)"] renderCells_count [of clk visits l n]
    by (simp add: cellDates_def nonNull_append)
qed

lemma month_cellDates:
  assumes "validDate (clk 1)" "clockYear (clk 1)"
  shows "cellDates (monthColumns (MonthGrid clk visits days))
           = map formatDate (monthDates (getFullYear (clk 1)) (getMonth (clk 1)))"
proof -
  let ?days = "map formatDate (monthDates (getFullYear (clk 1)) (getMonth (clk 1)))"
  note w = weeks_days [OF month_facts(2) [OF assms]]
  have "cellDates (fst (renderLines clk visits (monthWeeks (clk 1)) 2)) = nonNull (concat (monthWeeks (clk 1)))"
  proof (rule renderLines_dates)
    fix s
    assume "Some s \<in> set (concat (monthWeeks (clk 1)))"
    then have "s \<in> set ?days" using w(2) by blast
    then show "s \<noteq> []" using formatDate_nonempty by auto
  qed
  then show ?thesis
    unfolding w(1) by (simp add: MonthGrid_def Let_def)
qed

section \<open>Worked examples\<close>

lemma char_of_digit:
  "char_of (48::nat) = CHR ''0''" "char_of (49::nat) = CHR ''1''" "char_of (50::nat) = CHR ''2''"
  "char_of (51::nat) = CHR ''3''" "char_of (52::nat) = CHR ''4''" "char_of (53::nat) = CHR ''5''"
  "char_of (54::nat) = CHR ''6''" "char_of (55::nat) = CHR ''7''" "char_of (56::nat) = CHR ''8''"
  "char_of (57::nat) = CHR ''9''"
  by code_simp+

lemmas format_eval = formatDate_def pad4_def pad2_def digitChar_def char_of_digit

lemmas calendar_eval = validDate_def fourDigitYear_def daysInMonth_def DaysInYear_def
  dayNumber_def MakeDay_def DayFromYear_def daysBeforeMonth_def getDay_def WeekDay_def

definition march13 :: jsdate where
  "march13 = \<lparr>getFullYear = 2024, getMonth = 2, getDate = 13\<rparr>"

lemma week_of_march11:
  "getFullWeekDays 0 [''2024-03-11''] =
     Some [Some ''2024-03-11'', Some ''2024-03-12'', Some ''2024-03-13'', Some ''2024-03-14'',
           Some ''2024-03-15'', Some ''2024-03-16'', Some ''2024-03-17'']"
proof -
  let ?D = "\<lparr>getFullYear = 2024, getMonth = 2, getDate = 11\<rparr>"
  have f: "''2024-03-11'' = formatDate ?D"
    by (simp add: format_eval)
  have p: "parseISODate ''2024-03-11'' = Some ?D"
    unfolding f by (rule parse_format) (simp_all add: calendar_eval)
  have g: "getDay ?D = 1"
    by (simp add: calendar_eval)
  have s: "setDate ?D (11 + int i) = \<lparr>getFullYear = 2024, getMonth = 2, getDate = 11 + int i\<rparr>"
    if "i < 7" for i
    using that by (simp add: setDate_def normalize_valid daysInMonth_def)
  have m: "setDate ?D 11 = ?D"
    using s [of 0] by simp
  have l: "[0..<7] = [0, 1, 2, 3, 4, 5, 6]"
    by (simp add: upt_rec)
  have "getFullWeekDays 0 [''2024-03-11'']
      = Some (map (\<lambda>i. Some (formatDate (setDate ?D (11 + int i)))) [0..<7])"
    by (simp add: getFullWeekDays_def newDateOfString_def p g m Let_def)
  also have "\<dots> = Some (map (\<lambda>i. Some (formatDate
      \<lparr>getFullYear = 2024, getMonth = 2, getDate = 11 + int i\<rparr>)) [0..<7])"
    using s by simp
  finally show ?thesis
    by (simp add: l format_eval)
qed

lemma format_march13: "formatDate march13 = ''2024-03-13''"
  by (simp add: march13_def format_eval)

lemma weekGrid_march13:
  "WeekGrid 0 (\<lambda>_. march13) [''2024-03-15''] [''2024-03-11''] =
     Some [Some \<lparr>cellDate = ''2024-03-11'', isVisited = False, isFuture = False\<rparr>,
           Some \<lparr>cellDate = ''2024-03-12'', isVisited = False, isFuture = False\<rparr>,
           Some \<lparr>cellDate = ''2024-03-13'', isVisited = False, isFuture = False\<rparr>,
           Some \<lparr>cellDate = ''2024-03-14'', isVisited = False, isFuture = True\<rparr>,
           Some \<lparr>cellDate = ''2024-03-15'', isVisited = True, isFuture = True\<rparr>,
           Some \<lparr>cellDate = ''2024-03-16'', isVisited = False, isFuture = True\<rparr>,
           Some \<lparr>cellDate = ''2024-03-17'', isVisited = False, isFuture = True\<rparr>]"
  unfolding WeekGrid_def week_of_march11 option.case renderCells_steady
  by (simp add: slotCell_def isFutureDate_def format_march13 hasVisit_def)

definition feb2024 :: jsdate where
  "feb2024 = \<lparr>getFullYear = 2024, getMonth = 1, getDate = 10\<rparr>"

lemma feb2024_clock: "validDate feb2024" "clockYear feb2024"
  by (simp_all add: feb2024_def clockYear_def calendar_eval)

lemma march13_clock: "validDate march13" "clockYear march13"
  by (simp_all add: march13_def clockYear_def calendar_eval)

lemma format_march15:
  "formatDate \<lparr>getFullYear = 2024, getMonth = 2, getDate = 15\<rparr> = ''2024-03-15''"
  by (simp add: format_eval)

lemma format_dec31:
  "formatDate \<lparr>getFullYear = 2024, getMonth = 11, getDate = 31\<rparr> = ''2024-12-31''"
  by (simp add: format_eval)

lemma march15_in_month:
  "\<lparr>getFullYear = 2024, getMonth = 2, getDate = 15\<rparr>
     \<in> set (monthDates (getFullYear march13) (getMonth march13))"
  by (simp add: set_monthDates march13_def daysInMonth_def)

lemma dec31_in_year:
  "\<lparr>getFullYear = 2024, getMonth = 11, getDate = 31\<rparr> \<in> set (yearDates (getFullYear march13))"
  by (simp add: set_yearDates march13_def calendar_eval)

section \<open>Properties\<close>

text \<open>
  C1, as amended. When every reading of the clock during a render gives the date
  \<open>today\<close>, every non-null cell of the week, month and year grid whose date is after
  \<open>today\<close> is marked \<open>isFuture\<close> and drawn in the future style. Its \<open>isVisited\<close> flag is
  \<open>hasVisit\<close> of its date all the same: it is true when the future date is among the
  visits.
\<close>

theorem future_cells:
  assumes steady: "\<forall>k. clk k = today"
  shows "(\<forall>row c. WeekGrid utcOffset clk visits days = Some row \<and> Some c \<in> set row
            \<and> formatDate today < cellDate c
          \<longrightarrow> isFuture c \<and> styleOf c = FutureStyle \<and> isVisited c = hasVisit visits (cellDate c))
       \<and> (\<forall>c. Some c \<in> set (concat (monthColumns (MonthGrid clk visits days)))
            \<and> formatDate today < cellDate c
          \<longrightarrow> isFuture c \<and> styleOf c = FutureStyle \<and> isVisited c = hasVisit visits (cellDate c))
       \<and> (\<forall>c. Some c \<in> set (concat (yearRows (YearGrid clk visits days)))
            \<and> formatDate today < cellDate c
          \<longrightarrow> isFuture c \<and> styleOf c = FutureStyle \<and> isVisited c = hasVisit visits (cellDate c))"
proof -
  have flag: "isFuture c \<and> styleOf c = FutureStyle \<and> isVisited c = hasVisit visits (cellDate c)"
    if mem: "Some c \<in> set (concat (fst (renderLines clk visits ls n)))"
      and fut: "formatDate today < cellDate c"
    for c ls n
  proof -
    obtain k where "isFuture c = isFutureDate (clk k) (cellDate c)"
      using cell_of_grid(4) [OF mem] by blast
    then have "isFuture c"
      using fut steady by (simp add: isFutureDate_def)
    then show ?thesis
      using cell_of_grid(3) [OF mem] by (simp add: styleOf_def)
  qed
  have week: "\<forall>row c. WeekGrid utcOffset clk visits days = Some row \<and> Some c \<in> set row
            \<and> formatDate today < cellDate c
          \<longrightarrow> isFuture c \<and> styleOf c = FutureStyle \<and> isVisited c = hasVisit visits (cellDate c)"
  proof (intro allI impI)
    fix row c
    assume a: "WeekGrid utcOffset clk visits days = Some row \<and> Some c \<in> set row
        \<and> formatDate today < cellDate c"
    then obtain l where "row = fst (renderCells clk visits l 0)"
      by (auto simp: WeekGrid_def split: option.splits)
    then have "Some c \<in> set (concat (fst (renderLines clk visits [l] 0)))"
      using a by simp
    then show "isFuture c \<and> styleOf c = FutureStyle \<and> isVisited c = hasVisit visits (cellDate c)"
      using a by (intro flag) blast+
  qed
  have month: "\<forall>c. Some c \<in> set (concat (monthColumns (MonthGrid clk visits days)))
            \<and> formatDate today < cellDate c
          \<longrightarrow> isFuture c \<and> styleOf c = FutureStyle \<and> isVisited c = hasVisit visits (cellDate c)"
  proof (intro allI impI)
    fix c
    assume a: "Some c \<in> set (concat (monthColumns (MonthGrid clk visits days)))
        \<and> formatDate today < cellDate c"
    then have "Some c \<in> set (concat (fst (renderLines clk visits (monthWeeks (clk 1)) 2)))"
      by (simp add: MonthGrid_def Let_def)
    then show "isFuture c \<and> styleOf c = FutureStyle \<and> isVisited c = hasVisit visits (cellDate c)"
      using a by (intro flag) blast+
  qed
  have year: "\<forall>c. Some c \<in> set (concat (yearRows (YearGrid clk visits days)))
            \<and> formatDate today < cellDate c
          \<longrightarrow> isFuture c \<and> styleOf c = FutureStyle \<and> isVisited c = hasVisit visits (cellDate c)"
  proof (intro allI impI)
    fix c
    let ?rows = "map (\<lambda>dayIndex. map (\<lambda>week. week ! dayIndex) (yearWeeks (clk 1))) [0..<7]"
    assume a: "Some c \<in> set (concat (yearRows (YearGrid clk visits days)))
        \<and> formatDate today < cellDate c"
    then have "Some c \<in> set (concat (fst (renderLines clk visits ?rows 2)))"
      by (simp add: YearGrid_def Let_def)
    then show "isFuture c \<and> styleOf c = FutureStyle \<and> isVisited c = hasVisit visits (cellDate c)"
      using a by (intro flag) blast+
  qed
  show ?thesis
    by (rule conjI [OF week conjI [OF month year]])
qed

theorem future_cells_witness:
  "formatDate march13 < ''2024-03-15''
   \<and> Some \<lparr>cellDate = ''2024-03-15'', isVisited = True, isFuture = True\<rparr>
        \<in> set (the (WeekGrid 0 (\<lambda>_. march13) [''2024-03-15''] [''2024-03-11'']))
   \<and> Some \<lparr>cellDate = ''2024-03-15'', isVisited = True, isFuture = True\<rparr>
        \<in> set (concat (monthColumns (MonthGrid (\<lambda>_. march13) [''2024-03-15''] [''2024-03-11''])))
   \<and> Some \<lparr>cellDate = ''2024-12-31'', isVisited = False, isFuture = True\<rparr>
        \<in> set (concat (yearRows (YearGrid (\<lambda>_. march13) [''2024-03-15''] [''2024-03-11''])))
   \<and> styleOf \<lparr>cellDate = ''2024-03-15'', isVisited = True, isFuture = True\<rparr> = FutureStyle
   \<and> styleOf \<lparr>cellDate = ''2024-12-31'', isVisited = False, isFuture = True\<rparr> = FutureStyle"
proof -
  let ?V = "[''2024-03-15'']" and ?days = "[''2024-03-11'']"
  let ?c = "\<lparr>cellDate = ''2024-03-15'', isVisited = True, isFuture = True\<rparr>"
  let ?e = "\<lparr>cellDate = ''2024-12-31'', isVisited = False, isFuture = True\<rparr>"
  have steady: "\<forall>k. (\<lambda>_. march13) k = march13" by simp
  note all = future_cells [OF steady, of 0 ?V ?days]
  have lt: "formatDate march13 < ''2024-03-15''" "formatDate march13 < ''2024-12-31''"
    by (simp_all add: format_march13)
  have week: "Some ?c \<in> set (the (WeekGrid 0 (\<lambda>_. march13) ?V ?days))"
    by (simp add: weekGrid_march13)
  have month: "Some ?c \<in> set (concat (monthColumns (MonthGrid (\<lambda>_. march13) ?V ?days)))"
    using month_cell_exists [OF march13_clock march15_in_month, of ?V ?days] lt
    by (simp add: format_march15 hasVisit_def isFutureDate_def)
  have year: "Some ?e \<in> set (concat (yearRows (YearGrid (\<lambda>_. march13) ?V ?days)))"
    using year_cell_exists [OF march13_clock(2) dec31_in_year, of ?V ?days] lt
    by (simp add: format_dec31 hasVisit_def isFutureDate_def)
  have "styleOf ?c = FutureStyle"
    using all [THEN conjunct2, THEN conjunct1, rule_format, of ?c] month lt by simp
  moreover have "styleOf ?e = FutureStyle"
    using all [THEN conjunct2, THEN conjunct2, rule_format, of ?e] year lt by simp
  ultimately show ?thesis
    using lt week month year by blast
qed

text \<open>
  The claim C1 as stated fails: on Wednesday 2024-03-13 the cell of Friday 2024-03-15, a
  day among the visits, is in the week grid with \<open>isFuture\<close> and \<open>isVisited\<close> both true.
\<close>

theorem future_cell_marked_visited:
  "formatDate march13 = ''2024-03-13'' \<and> (''2024-03-13'' :: string) < ''2024-03-15''
   \<and> WeekGrid 0 (\<lambda>_. march13) [''2024-03-15''] [''2024-03-11''] =
     Some [Some \<lparr>cellDate = ''2024-03-11'', isVisited = False, isFuture = False\<rparr>,
           Some \<lparr>cellDate = ''2024-03-12'', isVisited = False, isFuture = False\<rparr>,
           Some \<lparr>cellDate = ''2024-03-13'', isVisited = False, isFuture = False\<rparr>,
           Some \<lparr>cellDate = ''2024-03-14'', isVisited = False, isFuture = True\<rparr>,
           Some \<lparr>cellDate = ''2024-03-15'', isVisited = True, isFuture = True\<rparr>,
           Some \<lparr>cellDate = ''2024-03-16'', isVisited = False, isFuture = True\<rparr>,
           Some \<lparr>cellDate = ''2024-03-17'', isVisited = False, isFuture = True\<rparr>]"
  using weekGrid_march13 format_march13 by simp

text \<open>
  C4. In the month grid and in the year grid a week column is closed exactly after a
  Sunday (the columns, nulls removed, are the days cut after each day of index 6, and a
  last partial column is there exactly when it holds a day), each day sits in the row of
  its day of the week, and the first column is null in every row before the first
  day's.
\<close>

theorem week_columns:
  assumes "validDate now" "clockYear now"
  shows "groupedByWeek (monthWeeks now) (getFullMonthDays now)
       \<and> groupedByWeek (yearWeeks now) (getFullYearDays now)"
proof
  have m: "0 \<le> getMonth now" "getMonth now \<le> 11"
    using assms(1) unfolding validDate_def by blast+
  have "\<forall>D\<in>set (monthDates (getFullYear now) (getMonth now)). validDate D \<and> fourDigitYear D"
    using month_dates_valid [OF assms] by blast
  then show "groupedByWeek (monthWeeks now) (getFullMonthDays now)"
    unfolding monthWeeks_def month_facts(1) [OF assms]
    by (rule buildWeeks_grouped [OF _ monthDates_props(1,3) [OF m]])
  have "\<forall>D\<in>set (yearDates (getFullYear now)). validDate D \<and> fourDigitYear D"
    using year_dates_valid [OF assms(2)] by blast
  then show "groupedByWeek (yearWeeks now) (getFullYearDays now)"
    unfolding yearWeeks_def year_facts(1) [OF assms(2)]
    by (rule buildWeeks_grouped [OF _ yearDates_props(1,3)])
qed

theorem week_columns_witness:
  "validDate feb2024 \<and> clockYear feb2024
   \<and> groupedByWeek (monthWeeks feb2024) (getFullMonthDays feb2024)
   \<and> groupedByWeek (yearWeeks feb2024) (getFullYearDays feb2024)"
  using week_columns [OF feb2024_clock] feb2024_clock by blast

text \<open>
  C5. The columns of the month grid, concatenated in order and with the nulls removed,
  are the dates of the days 1 to the last day of the month of the clock reading, in
  this order and each once; their number is the length of the month (February has 29
  days in a leap year).
\<close>

theorem monthWeeks_days:
  assumes "validDate now" "clockYear now"
  shows "nonNull (concat (monthWeeks now))
           = map (\<lambda>d. formatDate \<lparr>getFullYear = getFullYear now, getMonth = getMonth now, getDate = d\<rparr>)
               [1..daysInMonth (getFullYear now) (getMonth now)]
         \<and> distinct (nonNull (concat (monthWeeks now)))
         \<and> int (length (nonNull (concat (monthWeeks now)))) = daysInMonth (getFullYear now) (getMonth now)"
proof -
  let ?Ds = "monthDates (getFullYear now) (getMonth now)"
  have d: "nonNull (concat (monthWeeks now)) = map formatDate ?Ds"
    by (rule weeks_days(1) [OF month_facts(2) [OF assms]])
  have "inj_on formatDate (set ?Ds)"
  proof (rule inj_onI)
    fix D E
    assume "D \<in> set ?Ds" "E \<in> set ?Ds" "formatDate D = formatDate E"
    then show "D = E"
      using month_dates_valid [OF assms] by (intro formatDate_inject) blast+
  qed
  then have dist: "distinct (map formatDate ?Ds)"
    by (simp add: distinct_map distinct_monthDates)
  have len: "int (length ?Ds) = daysInMonth (getFullYear now) (getMonth now)"
    using daysInMonth_bounds [of "getFullYear now" "getMonth now"] by (simp add: monthDates_def)
  have expl: "map formatDate ?Ds
      = map (\<lambda>d. formatDate \<lparr>getFullYear = getFullYear now, getMonth = getMonth now, getDate = d\<rparr>)
          [1..daysInMonth (getFullYear now) (getMonth now)]"
    by (simp add: monthDates_def)
  show ?thesis
    unfolding d using dist len expl by simp
qed

theorem monthWeeks_days_witness:
  "validDate feb2024 \<and> clockYear feb2024
   \<and> int (length (nonNull (concat (monthWeeks feb2024)))) = 29
   \<and> distinct (nonNull (concat (monthWeeks feb2024)))"
proof -
  note all = monthWeeks_days [OF feb2024_clock]
  have "daysInMonth (getFullYear feb2024) (getMonth feb2024) = 29"
    by (simp add: feb2024_def calendar_eval)
  moreover have "int (length (nonNull (concat (monthWeeks feb2024))))
      = daysInMonth (getFullYear feb2024) (getMonth feb2024)"
    using all by blast
  moreover have "distinct (nonNull (concat (monthWeeks feb2024)))"
    using all by blast
  ultimately show ?thesis
    using feb2024_clock by simp
qed

text \<open>
  C6. Every non-null cell of the month grid carries a date of the month of the clock
  reading, from day 1 to its last day; every non-null cell of the year grid carries a
  date of the year of the clock reading, from January 1 to December 31.
\<close>

theorem cells_within_period:
  assumes "validDate (clk 1)" "clockYear (clk 1)"
  shows "(\<forall>c. Some c \<in> set (concat (monthColumns (MonthGrid clk visits days))) \<longrightarrow>
            (\<exists>D. cellDate c = formatDate D \<and> validDate D
               \<and> getFullYear D = getFullYear (clk 1) \<and> getMonth D = getMonth (clk 1)
               \<and> 1 \<le> getDate D \<and> getDate D \<le> daysInMonth (getFullYear (clk 1)) (getMonth (clk 1))))
       \<and> (\<forall>c. Some c \<in> set (concat (yearRows (YearGrid clk visits days))) \<longrightarrow>
            (\<exists>D. cellDate c = formatDate D \<and> validDate D \<and> getFullYear D = getFullYear (clk 1)
               \<and> dayNumber \<lparr>getFullYear = getFullYear (clk 1), getMonth = 0, getDate = 1\<rparr> \<le> dayNumber D
               \<and> dayNumber D \<le> dayNumber \<lparr>getFullYear = getFullYear (clk 1), getMonth = 11, getDate = 31\<rparr>))"
proof (intro conjI allI impI)
  fix c
  assume "Some c \<in> set (concat (monthColumns (MonthGrid clk visits days)))"
  then have "Some c \<in> set (concat (fst (renderLines clk visits (monthWeeks (clk 1)) 2)))"
    by (simp add: MonthGrid_def Let_def)
  then have "Some (cellDate c) \<in> set (concat (monthWeeks (clk 1)))"
    by (rule cell_of_grid(1))
  then have "cellDate c \<in> set (map formatDate (monthDates (getFullYear (clk 1)) (getMonth (clk 1))))"
    using weeks_days(2) [OF month_facts(2) [OF assms]] by blast
  then obtain D where D: "D \<in> set (monthDates (getFullYear (clk 1)) (getMonth (clk 1)))"
    "cellDate c = formatDate D" by auto
  show "\<exists>D. cellDate c = formatDate D \<and> validDate D
      \<and> getFullYear D = getFullYear (clk 1) \<and> getMonth D = getMonth (clk 1)
      \<and> 1 \<le> getDate D \<and> getDate D \<le> daysInMonth (getFullYear (clk 1)) (getMonth (clk 1))"
    using D month_dates_valid(1) [OF assms D(1)] unfolding set_monthDates by blast
next
  fix c
  let ?y = "getFullYear (clk 1)"
  have len: "\<forall>w\<in>set (yearWeeks (clk 1)). length w = 7"
    using buildWeeks_slotted unfolding yearWeeks_def slotted_def by blast
  let ?rows = "map (\<lambda>dayIndex. map (\<lambda>week. week ! dayIndex) (yearWeeks (clk 1))) [0..<7]"
  assume "Some c \<in> set (concat (yearRows (YearGrid clk visits days)))"
  then have "Some c \<in> set (concat (fst (renderLines clk visits ?rows 2)))"
    by (simp add: YearGrid_def Let_def)
  then have "Some (cellDate c) \<in> set (concat ?rows)"
    by (rule cell_of_grid(1))
  then have "Some (cellDate c) \<in> set (concat (yearWeeks (clk 1)))"
    unfolding yearRows_slots [OF len] .
  then have "cellDate c \<in> set (map formatDate (yearDates ?y))"
    using weeks_days(2) [OF year_facts(2) [OF assms(2)]] by blast
  then obtain D where D: "D \<in> set (yearDates ?y)" "cellDate c = formatDate D" by auto
  then have v: "validDate D" "getFullYear D = ?y"
    unfolding set_yearDates by blast+
  have "dayNumber \<lparr>getFullYear = ?y, getMonth = 0, getDate = 1\<rparr> = DayFromYear ?y"
    by (simp add: dayNumber_def MakeDay_in_range daysBeforeMonth_Jan)
  then have "dayNumber \<lparr>getFullYear = ?y, getMonth = 0, getDate = 1\<rparr> \<le> dayNumber D
      \<and> dayNumber D \<le> dayNumber \<lparr>getFullYear = ?y, getMonth = 11, getDate = 31\<rparr>"
    using dayNumber_in_year [OF v(1)] dayNumber_Dec31 [of ?y] by (simp add: v(2))
  then show "\<exists>D. cellDate c = formatDate D \<and> validDate D \<and> getFullYear D = ?y
      \<and> dayNumber \<lparr>getFullYear = ?y, getMonth = 0, getDate = 1\<rparr> \<le> dayNumber D
      \<and> dayNumber D \<le> dayNumber \<lparr>getFullYear = ?y, getMonth = 11, getDate = 31\<rparr>"
    using D(2) v by blast
qed

theorem cells_within_period_witness:
  "validDate march13 \<and> clockYear march13
   \<and> Some \<lparr>cellDate = ''2024-03-15'', isVisited = False, isFuture = True\<rparr>
        \<in> set (concat (monthColumns (MonthGrid (\<lambda>_. march13) [] [])))
   \<and> (\<exists>D. ''2024-03-15'' = formatDate D \<and> validDate D \<and> getFullYear D = 2024 \<and> getMonth D = 2
          \<and> 1 \<le> getDate D \<and> getDate D \<le> 31)
   \<and> Some \<lparr>cellDate = ''2024-12-31'', isVisited = False, isFuture = True\<rparr>
        \<in> set (concat (yearRows (YearGrid (\<lambda>_. march13) [] [])))
   \<and> (\<exists>D. ''2024-12-31'' = formatDate D \<and> validDate D \<and> getFullYear D = 2024)"
proof -
  let ?c = "\<lparr>cellDate = ''2024-03-15'', isVisited = False, isFuture = True\<rparr>"
  let ?e = "\<lparr>cellDate = ''2024-12-31'', isVisited = False, isFuture = True\<rparr>"
  have clk: "validDate ((\<lambda>_. march13) (1::nat))" "clockYear ((\<lambda>_. march13) (1::nat))"
    using march13_clock by simp_all
  note all = cells_within_period [OF clk, of "[]" "[]"]
  have lt: "formatDate march13 < ''2024-03-15''" "formatDate march13 < ''2024-12-31''"
    by (simp_all add: format_march13)
  have month: "Some ?c \<in> set (concat (monthColumns (MonthGrid (\<lambda>_. march13) [] [])))"
    using month_cell_exists [OF march13_clock march15_in_month, of "[]" "[]"] lt
    by (simp add: format_march15 hasVisit_def isFutureDate_def)
  have year: "Some ?e \<in> set (concat (yearRows (YearGrid (\<lambda>_. march13) [] [])))"
    using year_cell_exists [OF march13_clock(2) dec31_in_year, of "[]" "[]"] lt
    by (simp add: format_dec31 hasVisit_def isFutureDate_def)
  have "\<exists>D. cellDate ?c = formatDate D \<and> validDate D
      \<and> getFullYear D = getFullYear march13 \<and> getMonth D = getMonth march13
      \<and> 1 \<le> getDate D \<and> getDate D \<le> daysInMonth (getFullYear march13) (getMonth march13)"
    using all [THEN conjunct1, rule_format, OF month] .
  then have m: "\<exists>D. ''2024-03-15'' = formatDate D \<and> validDate D \<and> getFullYear D = 2024
      \<and> getMonth D = 2 \<and> 1 \<le> getDate D \<and> getDate D \<le> 31"
    by (simp add: march13_def daysInMonth_def)
  have "\<exists>D. cellDate ?e = formatDate D \<and> validDate D \<and> getFullYear D = getFullYear march13"
    using all [THEN conjunct2, rule_format, OF year] by blast
  then have y: "\<exists>D. ''2024-12-31'' = formatDate D \<and> validDate D \<and> getFullYear D = 2024"
    by (simp add: march13_def)
  show ?thesis
    using march13_clock month year m y by blast
qed

text \<open>
  C7. \<open>isFutureDate\<close> is true of a date string exactly when the string is lexically greater
  than the formatted date of the clock reading. On well-formed dates (valid calendar
  dates with a year of four digits) the lexical order of the formatted strings is the
  order of the day numbers, so a well-formed date is future exactly when it is a later
  day.
\<close>

theorem isFutureDate_order:
  "(isFutureDate now dateStr \<longleftrightarrow> formatDate now < dateStr)
   \<and> (validDate D \<and> fourDigitYear D \<and> validDate E \<and> fourDigitYear E \<longrightarrow>
        (formatDate D < formatDate E \<longleftrightarrow> dayNumber D < dayNumber E)
        \<and> (isFutureDate D (formatDate E) \<longleftrightarrow> dayNumber D < dayNumber E))"
proof (intro conjI impI)
  show "isFutureDate now dateStr \<longleftrightarrow> formatDate now < dateStr"
    by (simp add: isFutureDate_def)
next
  assume a: "validDate D \<and> fourDigitYear D \<and> validDate E \<and> fourDigitYear E"
  then have "formatDate D < formatDate E \<longleftrightarrow> before D E"
    by (intro formatDate_less) blast+
  also have "\<dots> \<longleftrightarrow> dayNumber D < dayNumber E"
    using a by (intro dayNumber_less [symmetric]) blast+
  finally show "formatDate D < formatDate E \<longleftrightarrow> dayNumber D < dayNumber E" .
  then show "isFutureDate D (formatDate E) \<longleftrightarrow> dayNumber D < dayNumber E"
    by (simp add: isFutureDate_def)
qed

theorem isFutureDate_order_witness:
  "validDate march13 \<and> fourDigitYear march13
   \<and> validDate \<lparr>getFullYear = 2025, getMonth = 0, getDate = 2\<rparr>
   \<and> fourDigitYear \<lparr>getFullYear = 2025, getMonth = 0, getDate = 2\<rparr>
   \<and> dayNumber march13 = 19795
   \<and> dayNumber \<lparr>getFullYear = 2025, getMonth = 0, getDate = 2\<rparr> = 20090
   \<and> formatDate march13 < formatDate \<lparr>getFullYear = 2025, getMonth = 0, getDate = 2\<rparr>
   \<and> isFutureDate march13 ''2025-01-02''"
proof -
  let ?E = "\<lparr>getFullYear = 2025, getMonth = 0, getDate = 2\<rparr>"
  have v: "validDate march13 \<and> fourDigitYear march13 \<and> validDate ?E \<and> fourDigitYear ?E"
    by (simp add: march13_def calendar_eval)
  have n: "dayNumber march13 = 19795" "dayNumber ?E = 20090"
    by (simp_all add: march13_def calendar_eval)
  have f: "formatDate ?E = ''2025-01-02''"
    by (simp add: format_eval)
  have "formatDate march13 < formatDate ?E" "isFutureDate march13 (formatDate ?E)"
    using isFutureDate_order [of march13 "[]" march13 ?E] v n by simp_all
  then show ?thesis
    using v n by (simp add: f)
qed

text \<open>
  C8, as amended. A render reads the clock again at every use: \<open>WeekGrid\<close> once for each
  cell, \<open>MonthGrid\<close> and \<open>YearGrid\<close> once for the title, once for the range of days and once
  for each cell. When all the readings of one render fall on the same date \<open>today\<close>, the
  grid is the one computed from \<open>today\<close> alone.
\<close>

theorem one_reference_date:
  "((\<forall>k<weekClockReads utcOffset clk visits days. clk k = today)
      \<longrightarrow> WeekGrid utcOffset clk visits days = WeekGrid utcOffset (\<lambda>_. today) visits days)
   \<and> ((\<forall>k<monthClockReads clk visits. clk k = today)
      \<longrightarrow> MonthGrid clk visits days = MonthGrid (\<lambda>_. today) visits days)
   \<and> ((\<forall>k<yearClockReads clk visits. clk k = today)
      \<longrightarrow> YearGrid clk visits days = YearGrid (\<lambda>_. today) visits days)"
proof (intro conjI impI)
  assume h: "\<forall>k<weekClockReads utcOffset clk visits days. clk k = today"
  show "WeekGrid utcOffset clk visits days = WeekGrid utcOffset (\<lambda>_. today) visits days"
  proof (cases "getFullWeekDays utcOffset days")
    case None
    then show ?thesis by (simp add: WeekGrid_def)
  next
    case (Some l)
    have "renderCells clk visits l 0 = renderCells (\<lambda>_. today) visits l 0"
    proof (rule renderCells_cong)
      fix k :: nat
      assume "k < snd (renderCells clk visits l 0)"
      then show "clk k = today"
        using h by (simp add: weekClockReads_def Some)
    qed
    then show ?thesis by (simp add: WeekGrid_def Some)
  qed
next
  assume h: "\<forall>k<monthClockReads clk visits. clk k = today"
  have two: "2 \<le> monthClockReads clk visits"
    unfolding monthClockReads_def by (rule renderLines_mono)
  have c: "clk 0 = today" "clk 1 = today"
    using h two by simp_all
  have "renderLines clk visits (monthWeeks today) 2 = renderLines (\<lambda>_. today) visits (monthWeeks today) 2"
  proof (rule renderLines_cong)
    fix k :: nat
    assume "k < snd (renderLines clk visits (monthWeeks today) 2)"
    then show "clk k = today"
      using h unfolding monthClockReads_def c by blast
  qed
  then show "MonthGrid clk visits days = MonthGrid (\<lambda>_. today) visits days"
    unfolding MonthGrid_def c by simp
next
  let ?rows = "\<lambda>now. map (\<lambda>dayIndex. map (\<lambda>week. week ! dayIndex) (yearWeeks now)) [0..<7]"
  assume h: "\<forall>k<yearClockReads clk visits. clk k = today"
  have two: "2 \<le> yearClockReads clk visits"
    unfolding yearClockReads_def by (rule renderLines_mono)
  have c: "clk 0 = today" "clk 1 = today"
    using h two by simp_all
  have "renderLines clk visits (?rows today) 2 = renderLines (\<lambda>_. today) visits (?rows today) 2"
  proof (rule renderLines_cong)
    fix k :: nat
    assume "k < snd (renderLines clk visits (?rows today) 2)"
    then show "clk k = today"
      using h unfolding yearClockReads_def c by blast
  qed
  then show "YearGrid clk visits days = YearGrid (\<lambda>_. today) visits days"
    unfolding YearGrid_def c by simp
qed

text \<open>
  A render of March 2024 reads the clock 33 times (twice, and once for each of the 31
  days); what the clock shows from the 34th reading on does not matter.
\<close>

definition stoppingClock :: clock where
  "stoppingClock k = (if k < 33 then march13 else \<lparr>getFullYear = 2024, getMonth = 11, getDate = 31\<rparr>)"

theorem one_reference_date_witness:
  "monthClockReads stoppingClock [] = 33 \<and> stoppingClock 33 \<noteq> march13
   \<and> MonthGrid stoppingClock [] [] = MonthGrid (\<lambda>_. march13) [] []"
proof -
  have c1: "stoppingClock 1 = march13"
    by (simp add: stoppingClock_def)
  have v: "validDate (stoppingClock 1)" "clockYear (stoppingClock 1)"
    unfolding c1 by (rule march13_clock)+
  have "length (monthDates (getFullYear march13) (getMonth march13)) = 31"
    by (simp add: monthDates_def march13_def daysInMonth_def)
  moreover have "cellDates (fst (renderLines stoppingClock [] (monthWeeks (stoppingClock 1)) 2))
      = map formatDate (monthDates (getFullYear march13) (getMonth march13))"
    using month_cellDates [of stoppingClock "[]" "[]", OF v] unfolding MonthGrid_def Let_def c1 by simp
  ultimately have reads: "monthClockReads stoppingClock [] = 33"
    unfolding monthClockReads_def renderLines_count by simp
  then have "\<forall>k<monthClockReads stoppingClock []. stoppingClock k = march13"
    by (simp add: stoppingClock_def)
  then have "MonthGrid stoppingClock [] [] = MonthGrid (\<lambda>_. march13) [] []"
    using one_reference_date [of 0 stoppingClock "[]" "[]" march13] by blast
  moreover have "stoppingClock 33 \<noteq> march13"
    by (simp add: stoppingClock_def march13_def)
  ultimately show ?thesis
    using reads by blast
qed

text \<open>
  The claim C8 as stated fails. When midnight passes between the first reading
  (2024-01-31, for the title) and the second (2024-02-01, for the range of days), the
  month grid is titled January and holds the 29 days of February.
\<close>

definition midnightClock :: clock where
  "midnightClock k =
     (if k = 0 then \<lparr>getFullYear = 2024, getMonth = 0, getDate = 31\<rparr>
      else \<lparr>getFullYear = 2024, getMonth = 1, getDate = 1\<rparr>)"

theorem grid_mixes_two_dates:
  "formatDate (midnightClock 0) = ''2024-01-31'' \<and> formatDate (midnightClock 1) = ''2024-02-01''
   \<and> monthTitle (MonthGrid midnightClock [] []) = ''January''
   \<and> hd (cellDates (monthColumns (MonthGrid midnightClock [] []))) = ''2024-02-01''
   \<and> length (cellDates (monthColumns (MonthGrid midnightClock [] []))) = 29"
proof -
  let ?feb1 = "\<lparr>getFullYear = 2024, getMonth = 1, getDate = 1\<rparr>"
  have c: "midnightClock 0 = \<lparr>getFullYear = 2024, getMonth = 0, getDate = 31\<rparr>" "midnightClock 1 = ?feb1"
    by (simp_all add: midnightClock_def)
  have v: "validDate (midnightClock 1)" "clockYear (midnightClock 1)"
    unfolding c by (simp_all add: clockYear_def calendar_eval)
  have m: "0 \<le> (1::int)" "(1::int) \<le> 11" by simp_all
  have dates: "cellDates (monthColumns (MonthGrid midnightClock [] []))
      = map formatDate (monthDates 2024 1)"
    using month_cellDates [of midnightClock "[]" "[]", OF v] unfolding c by simp
  have "hd (map formatDate (monthDates 2024 1)) = formatDate (hd (monthDates 2024 1))"
    using monthDates_props(3) [OF m, of 2024] by (simp add: hd_map)
  then have hd: "hd (map formatDate (monthDates 2024 1)) = ''2024-02-01''"
    by (simp add: monthDates_props(4) [OF m] format_eval)
  have len: "length (monthDates 2024 1) = 29"
    by (simp add: monthDates_def calendar_eval)
  have title: "monthTitle (MonthGrid midnightClock [] []) = ''January''"
    unfolding MonthGrid_def c by (simp add: FULL_MONTH_NAMES_def)
  have fmt: "formatDate (midnightClock 0) = ''2024-01-31''" "formatDate (midnightClock 1) = ''2024-02-01''"
    unfolding c by (simp_all add: format_eval)
  show ?thesis
    unfolding dates using hd len title fmt by simp
qed

text \<open>
  C9. When the list of period days is empty, \<open>getFullWeekDays\<close> returns a row of exactly
  seven nulls; it does not fail, in any time zone.
\<close>

theorem getFullWeekDays_empty:
  "getFullWeekDays utcOffset [] = Some [None, None, None, None, None, None, None]
   \<and> length (the (getFullWeekDays utcOffset [])) = 7"
  by (simp add: getFullWeekDays_def numeral_eq_Suc)

text \<open>
  C10. \<open>MonthGrid\<close> and \<open>YearGrid\<close> do not depend on the \<open>days\<close> they are passed.
\<close>

theorem grids_ignore_days:
  "MonthGrid clk visits days1 = MonthGrid clk visits days2
   \<and> YearGrid clk visits days1 = YearGrid clk visits days2"
  by (simp add: MonthGrid_def YearGrid_def)

end
